theory Spec2Isabelle
  imports Main "HOL-Library.Word" "HOL-Library.Monad_Syntax"
begin

unbundle bit_operations_syntax

section \<open>Machine model\<close>

text \<open>
  The allocators are C code for an LP64 target: \<open>size_t\<close> has 64 bits, a pointer is an
  address below \<open>2 ^ 64\<close>, the null pointer is the address 0. Addresses and sizes are
  natural numbers; where the C arithmetic on \<open>size_t\<close> can wrap, the reduction
  modulo \<open>2 ^ 64\<close> is written out. A division by zero and a loop that does not end have
  no result (\<open>None\<close>).

  Block headers are kept in a map from addresses to headers. A header that was written stays
  where it is until it is overwritten: the code never clears the headers of blocks that were
  absorbed by a merge, and reads some of them later. The payload bytes are a second map, so
  the model does not let a payload write change a header.
\<close>

abbreviation (input) W :: nat where
  "W \<equiv> 18446744073709551616"

section \<open>The heap-replacement allocator\<close>

text \<open>
  There are two versions of this allocator in the repository. They share \<open>grow\<close>,
  \<open>split\<close>, \<open>join\<close>, \<open>bfree\<close> and \<open>bcalloc\<close> word for word. They differ in three
  places, selected by the \<open>version\<close> argument below:
  \<^item> \<open>Lazy\<close>: \<open>balloc\<close> runs \<open>init\<close> on the first call and returns \<open>BNULL\<close> for a
    request of 0 bytes; \<open>brealloc\<close> releases the lock before it delegates a null pointer to
    \<open>balloc\<close>; the first region is one page.
  \<^item> \<open>Ctor\<close>: \<open>init\<close> is a constructor that runs before \<open>main\<close>; \<open>balloc\<close> has no
    test for 0 bytes; \<open>brealloc\<close> delegates a null pointer to \<open>balloc\<close> with the lock
    held; the first region is \<open>BUDDY_BLOCK_INIT_SIZE\<close> bytes.
\<close>

datatype version = Lazy | Ctor

text \<open>\<^verbatim>\<open>struct block { size_t size; int used; _Alignas(max_align_t) byte_t mem[]; }\<close>\<close>

record block =
  bsize :: nat
  used :: bool

text \<open>
  The globals \<open>start\<close>, \<open>end\<close>, \<open>next\<close>, \<open>lock\<close> (the depth of the recursive mutex) and
  \<open>Buddy_Is_Init\<close>, the memory, and the environment: the program break, the highest break
  the system grants (\<open>sbrk\<close> fails beyond it) and the page size.
\<close>

record heap =
  mem :: "nat \<Rightarrow> block"
  bytes :: "nat \<Rightarrow> 8 word"
  h_start :: nat
  h_end :: nat
  h_next :: nat
  lock :: nat
  Buddy_Is_Init :: bool
  brk :: nat
  brk_max :: nat
  pagesize :: nat

abbreviation (input) BNULL :: nat where
  "BNULL \<equiv> 0"

abbreviation (input) MEMOFFSET :: nat where
  "MEMOFFSET \<equiv> 16"

abbreviation (input) MINBLOCKSIZE :: nat where
  "MINBLOCKSIZE \<equiv> 16"

abbreviation (input) BUDDY_BLOCK_INIT_SIZE :: nat where
  "BUDDY_BLOCK_INIT_SIZE \<equiv> 4096"

definition NEXT :: "(nat \<Rightarrow> block) \<Rightarrow> nat \<Rightarrow> nat" where
  "NEXT m block_ptr = block_ptr + bsize (m block_ptr)"

definition MEMSIZE :: "(nat \<Rightarrow> block) \<Rightarrow> nat \<Rightarrow> nat" where
  "MEMSIZE m block_ptr = (bsize (m block_ptr) + W - MEMOFFSET) mod W"

definition HALFMEMSIZE :: "(nat \<Rightarrow> block) \<Rightarrow> nat \<Rightarrow> nat" where
  "HALFMEMSIZE m block_ptr = (bsize (m block_ptr) div 2 + W - MEMOFFSET) mod W"

definition BLOCK :: "nat \<Rightarrow> nat" where
  "BLOCK p = p - MEMOFFSET"

definition BLOCKSIZE :: "nat \<Rightarrow> nat" where
  "BLOCKSIZE memsize = (memsize + MEMOFFSET) mod W"

definition BYTEDIFF :: "nat \<Rightarrow> nat \<Rightarrow> nat" where
  "BYTEDIFF ptr1 ptr2 = (ptr2 + W - ptr1) mod W"

definition pthread_mutex_lock :: "heap \<Rightarrow> heap" where
  "pthread_mutex_lock h = h\<lparr>lock := lock h + 1\<rparr>"

definition pthread_mutex_unlock :: "heap \<Rightarrow> heap" where
  "pthread_mutex_unlock h = h\<lparr>lock := lock h - 1\<rparr>"

text \<open>\<open>sbrk\<close> returns the old break, or \<open>None\<close> for \<open>(void *) -1\<close>.\<close>

definition sbrk :: "nat \<Rightarrow> heap \<Rightarrow> nat option \<times> heap" where
  "sbrk n h =
     (if brk h + n \<le> brk_max h then (Some (brk h), h\<lparr>brk := brk h + n\<rparr>) else (None, h))"

text \<open>
  \<open>init\<close>. The \<open>Lazy\<close> version aligns \<open>start\<close> to the page size, the \<open>Ctor\<close> version to
  \<open>_Alignof(max_align_t)\<close>. A failed assertion ends the process: \<open>None\<close>.
\<close>

definition init :: "version \<Rightarrow> heap \<Rightarrow> heap option" where
  "init v h0 =
     (let h = pthread_mutex_lock (h0\<lparr>lock := 0\<rparr>) in
      if v = Lazy \<and> Buddy_Is_Init h then Some h
      else
        let A = (if v = Lazy then pagesize h else 16);
            first = (if v = Lazy then pagesize h else BUDDY_BLOCK_INIT_SIZE);
            h1 = (if A \<noteq> 0 \<and> brk h mod A > 0 then snd (sbrk (A - brk h mod A) h) else h);
            s = brk h1
        in if A = 0 then None
           else case sbrk first h1 of
             (None, h2) \<Rightarrow> None
           | (Some old, h2) \<Rightarrow>
               Some (pthread_mutex_unlock
                 (h2\<lparr>h_start := s, h_end := s + first, h_next := s,
                     mem := (mem h2)(s := \<lparr>bsize = first, used = False\<rparr>),
                     Buddy_Is_Init := (v = Lazy \<or> Buddy_Is_Init h2)\<rparr>)))"

subsection \<open>grow\<close>

partial_function (option) grow_size :: "nat \<Rightarrow> nat \<Rightarrow> nat option" where
  "grow_size sz required =
     (if sz < required then grow_size ((sz * 2) mod W) required else Some sz)"

declare grow_size.simps [code]

partial_function (option) grow_loop :: "nat \<Rightarrow> heap \<Rightarrow> (nat \<times> heap) option" where
  "grow_loop required h =
     (let current_size = BYTEDIFF (h_start h) (h_end h) in
      case sbrk current_size h of
        (None, h1) \<Rightarrow> Some (BNULL, h1)
      | (Some old, h1) \<Rightarrow>
          (let block = h_end h1;
               m = (mem h1)(block := \<lparr>bsize = current_size, used = False\<rparr>);
               h2 = h1\<lparr>mem := m, h_end := NEXT m block\<rparr>
           in if current_size < required then grow_loop required h2 else Some (block, h2)))"

declare grow_loop.simps [code]

definition grow :: "nat \<Rightarrow> heap \<Rightarrow> (nat \<times> heap) option" where
  "grow required0 h =
     (let required = BLOCKSIZE required0 in
      if NEXT (mem h) (h_start h) = h_end h \<and> \<not> used (mem h (h_start h)) then
        (case grow_size (bsize (mem h (h_start h))) required of
           None \<Rightarrow> None
         | Some sz \<Rightarrow>
             (case sbrk ((sz + W - bsize (mem h (h_start h))) mod W) h of
                (None, h1) \<Rightarrow> Some (BNULL, h1)
              | (Some old, h1) \<Rightarrow>
                  (let m = (mem h1)(h_start h1 := (mem h1 (h_start h1))\<lparr>bsize := sz\<rparr>)
                   in Some (h_start h1, h1\<lparr>mem := m, h_end := NEXT m (h_start h1)\<rparr>))))
      else grow_loop required h)"

subsection \<open>split and join\<close>

definition split :: "nat \<Rightarrow> (nat \<Rightarrow> block) \<Rightarrow> (nat \<Rightarrow> block)" where
  "split block m =
     (let m1 = m(block := (m block)\<lparr>bsize := bsize (m block) div 2\<rparr>);
          nxt = NEXT m1 block
      in m1(nxt := \<lparr>bsize = bsize (m1 block), used = False\<rparr>))"

text \<open>
  The loop of \<open>join\<close> on the local variables \<open>block\<close> and \<open>size\<close> (here \<open>sz\<close>); it reads the memory and
  writes nothing. \<open>size * 2\<close> is 0 when \<open>size\<close> is 0 or \<open>2 ^ 63\<close>: the remainder traps.
\<close>

partial_function (option) join_loop :: "heap \<Rightarrow> nat \<Rightarrow> nat \<Rightarrow> (nat \<times> nat) option" where
  "join_loop h block sz =
     (if (sz * 2) mod W = 0 then None
      else
        let left = (BYTEDIFF (h_start h) block mod ((sz * 2) mod W) = 0);
            buddy = (if left then block + sz else block - sz);
            joined = (if left then block else buddy)
        in if buddy = h_end h \<or> bsize (mem h buddy) \<noteq> sz \<or> used (mem h buddy)
           then Some (block, sz)
           else join_loop h joined ((sz * 2) mod W))"

declare join_loop.simps [code]

definition join :: "nat \<Rightarrow> heap \<Rightarrow> (nat \<times> heap) option" where
  "join block0 h =
     (case join_loop h block0 (bsize (mem h block0)) of
        None \<Rightarrow> None
      | Some (block, sz) \<Rightarrow>
          Some (block, h\<lparr>mem := (mem h)(block := \<lparr>bsize = sz, used = False\<rparr>)\<rparr>))"

subsection \<open>balloc\<close>

text \<open>
  The search loop of \<open>balloc\<close>. It ends with \<open>Inr\<close> of the block it leaves the loop with
  (found, or obtained from \<open>grow\<close>), or with \<open>Inl\<close> when \<open>grow\<close> returned \<open>BNULL\<close>.
\<close>

partial_function (option) balloc_search ::
  "nat \<Rightarrow> heap \<Rightarrow> nat \<Rightarrow> (heap + nat \<times> heap) option" where
  "balloc_search sz h block =
     (if MEMSIZE (mem h) block < sz \<or> used (mem h block) then
        let block1 = NEXT (mem h) block;
            block2 = (if block1 = h_end h then h_start h else block1)
        in if block2 = h_next h then
             (case grow sz h of
                None \<Rightarrow> None
              | Some (b, h1) \<Rightarrow> if b = BNULL then Some (Inl h1) else Some (Inr (b, h1)))
           else balloc_search sz h block2
      else Some (Inr (block, h)))"

declare balloc_search.simps [code]

partial_function (option) balloc_split ::
  "nat \<Rightarrow> nat \<Rightarrow> (nat \<Rightarrow> block) \<Rightarrow> (nat \<Rightarrow> block) option" where
  "balloc_split sz block m =
     (if HALFMEMSIZE m block \<ge> sz \<and> bsize (m block) > MINBLOCKSIZE
      then balloc_split sz block (split block m)
      else Some m)"

declare balloc_split.simps [code]

text \<open>The body of \<open>balloc\<close> from \<open>pthread_mutex_lock\<close> on, the same in both versions.\<close>

definition balloc_body :: "nat \<Rightarrow> heap \<Rightarrow> (nat \<times> heap) option" where
  "balloc_body sz h0 =
     (let h = pthread_mutex_lock h0 in
      case balloc_search sz h (h_next h) of
        None \<Rightarrow> None
      | Some (Inl h1) \<Rightarrow> Some (BNULL, pthread_mutex_unlock h1)
      | Some (Inr (block, h1)) \<Rightarrow>
          (case balloc_split sz block (mem h1) of
             None \<Rightarrow> None
           | Some m2 \<Rightarrow>
               (let nxt = NEXT m2 block;
                    nxt' = (if nxt = h_end h1 then h_start h1 else nxt);
                    m3 = m2(block := (m2 block)\<lparr>used := True\<rparr>)
                in Some (block + MEMOFFSET,
                         pthread_mutex_unlock (h1\<lparr>mem := m3, h_next := nxt'\<rparr>)))))"

definition balloc :: "version \<Rightarrow> nat \<Rightarrow> heap \<Rightarrow> (nat \<times> heap) option" where
  "balloc v sz h =
     (case v of
        Ctor \<Rightarrow> balloc_body sz h
      | Lazy \<Rightarrow>
          (case (if \<not> Buddy_Is_Init h then init Lazy h else Some h) of
             None \<Rightarrow> None
           | Some h1 \<Rightarrow> if sz = 0 then Some (BNULL, h1) else balloc_body sz h1))"

subsection \<open>bfree\<close>

definition bfree :: "nat \<Rightarrow> heap \<Rightarrow> heap option" where
  "bfree ptr h0 =
     (if ptr = BNULL then Some h0
      else
        let h = pthread_mutex_lock h0 in
        case join (BLOCK ptr) h of
          None \<Rightarrow> None
        | Some (block, h1) \<Rightarrow> Some (pthread_mutex_unlock (h1\<lparr>h_next := block\<rparr>)))"

subsection \<open>brealloc and bcalloc\<close>

text \<open>The shrink loop: \<open>while ((block->size / 2 - MEMOFFSET) >= size) split(block)\<close>.\<close>

partial_function (option) brealloc_shrink ::
  "nat \<Rightarrow> nat \<Rightarrow> (nat \<Rightarrow> block) \<Rightarrow> (nat \<Rightarrow> block) option" where
  "brealloc_shrink sz block m =
     (if (bsize (m block) div 2 + W - MEMOFFSET) mod W \<ge> sz
      then brealloc_shrink sz block (split block m)
      else Some m)"

declare brealloc_shrink.simps [code]

text \<open>
  The loop that tries to grow the block over its right buddies, on the local variable
  \<open>block_size\<close>: \<open>Some block_size\<close> when the loop returns from \<open>brealloc\<close> with that size,
  \<open>None\<close> when it is left by \<open>break\<close>.
\<close>

partial_function (option) brealloc_absorb ::
  "nat \<Rightarrow> heap \<Rightarrow> nat \<Rightarrow> nat \<Rightarrow> nat option option" where
  "brealloc_absorb sz h block block_size =
     (if block_size \<ge> BLOCKSIZE sz then Some (Some block_size)
      else if (block_size * 2) mod W = 0 then None
      else
        let buddy = block + block_size in
        if BYTEDIFF (h_start h) block mod ((block_size * 2) mod W) > 0 \<or>
           buddy = h_end h \<or> bsize (mem h buddy) \<noteq> block_size \<or> used (mem h buddy)
        then Some None
        else brealloc_absorb sz h block ((block_size * 2) mod W))"

declare brealloc_absorb.simps [code]

text \<open>
  The two copy loops of the relocation: ascending indices when the new address is below the
  old one, descending indices otherwise.
\<close>

definition copy_up :: "nat \<Rightarrow> nat \<Rightarrow> nat \<Rightarrow> (nat \<Rightarrow> 8 word) \<Rightarrow> (nat \<Rightarrow> 8 word)" where
  "copy_up new_ptr ptr n b = fold (\<lambda>i b. b(new_ptr + i := b (ptr + i))) [0..<n] b"

definition copy_down :: "nat \<Rightarrow> nat \<Rightarrow> nat \<Rightarrow> (nat \<Rightarrow> 8 word) \<Rightarrow> (nat \<Rightarrow> 8 word)" where
  "copy_down new_ptr ptr n b = fold (\<lambda>i b. b(new_ptr + i := b (ptr + i))) (rev [0..<n]) b"

definition brealloc :: "version \<Rightarrow> nat \<Rightarrow> nat \<Rightarrow> heap \<Rightarrow> (nat \<times> heap) option" where
  "brealloc v ptr sz h0 =
     (let h = pthread_mutex_lock h0 in
      if ptr = BNULL then balloc v sz (if v = Lazy then pthread_mutex_unlock h else h)
      else if sz = 0 then
        (case bfree ptr h of
           None \<Rightarrow> None
         | Some h1 \<Rightarrow> Some (BNULL, pthread_mutex_unlock h1))
      else
        let block = BLOCK ptr in
        if MEMSIZE (mem h) block \<ge> sz then
          (case brealloc_shrink sz block (mem h) of
             None \<Rightarrow> None
           | Some m1 \<Rightarrow>
               Some (block + MEMOFFSET,
                     pthread_mutex_unlock (h\<lparr>mem := m1, h_next := NEXT m1 block\<rparr>)))
        else
          (case brealloc_absorb sz h block (bsize (mem h block)) of
             None \<Rightarrow> None
           | Some (Some block_size) \<Rightarrow>
               (let m1 = (mem h)(block := (mem h block)\<lparr>bsize := block_size\<rparr>)
                in Some (block + MEMOFFSET,
                         pthread_mutex_unlock (h\<lparr>mem := m1, h_next := NEXT m1 block\<rparr>)))
           | Some None \<Rightarrow>
               (let block_size = bsize (mem h block) in
                case bfree ptr h of
                  None \<Rightarrow> None
                | Some h1 \<Rightarrow>
                    (case balloc v sz h1 of
                       None \<Rightarrow> None
                     | Some (new_ptr, h2) \<Rightarrow>
                         if new_ptr = BNULL then
                           Some (BNULL,
                                 pthread_mutex_unlock
                                   (h2\<lparr>mem := (mem h2)
                                      (block := \<lparr>bsize = block_size, used = True\<rparr>)\<rparr>))
                         else
                           Some (new_ptr,
                                 pthread_mutex_unlock
                                   (h2\<lparr>bytes :=
                                      (if new_ptr < ptr
                                       then copy_up new_ptr ptr (MEMSIZE (mem h2) block) (bytes h2)
                                       else copy_down new_ptr ptr (MEMSIZE (mem h2) block)
                                              (bytes h2))\<rparr>))))))"

definition bcalloc :: "version \<Rightarrow> nat \<Rightarrow> nat \<Rightarrow> heap \<Rightarrow> (nat \<times> heap) option" where
  "bcalloc v nitems sz0 h =
     (let sz = (sz0 * nitems) mod W in
      case balloc v sz h of
        None \<Rightarrow> None
      | Some (ptr, h1) \<Rightarrow>
          if ptr = BNULL then Some (BNULL, h1)
          else Some (ptr, h1\<lparr>bytes := fold (\<lambda>i b. b(ptr + i := 0)) [0..<sz] (bytes h1)\<rparr>))"

section \<open>The arena allocator\<close>

text \<open>
  \<^verbatim>\<open>struct block { size_t size; byte_t free; word_t mem[]; }\<close> with \<open>word_t = intptr_t\<close>:
  the payload starts at offset 16, and \<open>BLOCK_MIN_SIZE\<close> is \<open>16 + sizeof(word_t) = 24\<close>.
  The handle \<open>buddy_t\<close> holds \<open>start\<close> and \<open>stop\<close>; the memory is passed along.
\<close>

record arena_block =
  a_size :: nat
  a_free :: bool

record buddy_t =
  start :: nat
  stop :: nat

abbreviation (input) BLOCK_MEM_OFFSET :: nat where
  "BLOCK_MEM_OFFSET \<equiv> 16"

abbreviation (input) BLOCK_MIN_SIZE :: nat where
  "BLOCK_MIN_SIZE \<equiv> 24"

definition MEM_SIZE :: "nat \<Rightarrow> nat" where
  "MEM_SIZE sz = (sz + W - BLOCK_MEM_OFFSET) mod W"

definition MEM_BLOCK_PTR :: "nat \<Rightarrow> nat" where
  "MEM_BLOCK_PTR ptr = ptr - BLOCK_MEM_OFFSET"

text \<open>
  \<open>BLOCK_BYTE_OFFSET(block, offset)\<close> with a \<open>size_t\<close> offset: \<open>try_merge\<close> passes
  \<open>-block->size\<close>, that is \<open>2 ^ 64 - size\<close>, and relies on the address wrapping around.
\<close>

definition BLOCK_BYTE_OFFSET :: "nat \<Rightarrow> nat \<Rightarrow> nat" where
  "BLOCK_BYTE_OFFSET block offset = (block + offset) mod W"

definition p2align_down :: "64 word \<Rightarrow> 64 word" where
  "p2align_down size0 =
     (let s = size0 - 1;
          s = s OR drop_bit 1 s;
          s = s OR drop_bit 2 s;
          s = s OR drop_bit 4 s;
          s = s OR drop_bit 8 s;
          s = s OR drop_bit 16 s;
          s = s OR drop_bit 32 s;
          s = s + 1
      in drop_bit 1 s)"

definition buddy_init ::
  "nat \<Rightarrow> nat \<Rightarrow> (nat \<Rightarrow> arena_block) \<Rightarrow> buddy_t \<times> (nat \<Rightarrow> arena_block)" where
  "buddy_init memp size0 m =
     (let sz = unat (p2align_down (word_of_nat size0));
          block = memp;
          m1 = m(block := \<lparr>a_size = sz, a_free = True\<rparr>)
      in (\<lparr>start = block, stop = BLOCK_BYTE_OFFSET block sz\<rparr>, m1))"

definition get_next :: "(nat \<Rightarrow> arena_block) \<Rightarrow> nat \<Rightarrow> nat \<Rightarrow> nat" where
  "get_next m block stp =
     (let next_block = BLOCK_BYTE_OFFSET block (a_size (m block))
      in if stp \<noteq> 0 \<and> next_block \<ge> stp then 0 else next_block)"

text \<open>The arena's \<open>split\<close>: the block, or 0 for \<open>NULL\<close>, and the memory.\<close>

definition split_a :: "nat \<Rightarrow> (nat \<Rightarrow> arena_block) \<Rightarrow> nat \<times> (nat \<Rightarrow> arena_block)" where
  "split_a block m =
     (if a_size (m block) div 2 < BLOCK_MIN_SIZE then (0, m)
      else
        let m1 = m(block := (m block)\<lparr>a_size := a_size (m block) div 2\<rparr>);
            buddy = get_next m1 block 0
        in (block, m1(buddy := \<lparr>a_size = a_size (m1 block), a_free = True\<rparr>)))"

text \<open>\<open>is_left\<close>: \<open>None\<close> when \<open>block->size * 2\<close> is 0 and the remainder traps.\<close>

definition is_left :: "(nat \<Rightarrow> arena_block) \<Rightarrow> nat \<Rightarrow> nat \<Rightarrow> bool option" where
  "is_left m strt block =
     (let offset = (block + W - strt) mod W
      in if (a_size (m block) * 2) mod W = 0 then None
         else Some (offset mod ((a_size (m block) * 2) mod W) = 0))"

text \<open>\<open>try_merge\<close>: the merged block, or 0 for \<open>NULL\<close>, and the memory.\<close>

definition try_merge ::
  "nat \<Rightarrow> nat \<Rightarrow> nat \<Rightarrow> (nat \<Rightarrow> arena_block) \<Rightarrow> (nat \<times> (nat \<Rightarrow> arena_block)) option" where
  "try_merge strt block stp m =
     (case is_left m strt block of
        None \<Rightarrow> None
      | Some left \<Rightarrow>
          (let buddy = (if left then BLOCK_BYTE_OFFSET block (a_size (m block))
                        else BLOCK_BYTE_OFFSET block ((W - a_size (m block)) mod W));
               no_merge = (buddy \<ge> stp \<or> \<not> a_free (m buddy) \<or>
                           a_size (m buddy) \<noteq> a_size (m block))
           in if no_merge then Some (0, m)
              else
                let new_block = (if left then block else buddy)
                in Some (new_block,
                         m(new_block := \<lparr>a_size = (a_size (m block) * 2) mod W,
                                         a_free = True\<rparr>))))"

text \<open>The search loop of \<open>buddy_alloc\<close>: \<open>None\<close> when it returns \<open>NULL\<close>.\<close>

partial_function (option) alloc_search ::
  "buddy_t \<Rightarrow> (nat \<Rightarrow> arena_block) \<Rightarrow> nat \<Rightarrow> nat \<Rightarrow> nat option option" where
  "alloc_search buddy m sz block =
     (if \<not> a_free (m block) \<or> MEM_SIZE (a_size (m block)) < sz then
        let block1 = get_next m block (stop buddy)
        in if block1 = 0 then Some None else alloc_search buddy m sz block1
      else Some (Some block))"

declare alloc_search.simps [code]

partial_function (option) alloc_split ::
  "nat \<Rightarrow> nat \<Rightarrow> (nat \<Rightarrow> arena_block) \<Rightarrow> (nat \<times> (nat \<Rightarrow> arena_block)) option" where
  "alloc_split sz block m =
     (if MEM_SIZE (a_size (m block) div 2) \<ge> sz then
        (case split_a block m of
           (new_block, m1) \<Rightarrow>
             if new_block = 0 then Some (block, m1) else alloc_split sz new_block m1)
      else Some (block, m))"

declare alloc_split.simps [code]

definition buddy_alloc ::
  "buddy_t \<Rightarrow> nat \<Rightarrow> (nat \<Rightarrow> arena_block) \<Rightarrow> (nat \<times> (nat \<Rightarrow> arena_block)) option" where
  "buddy_alloc buddy sz m =
     (if sz = 0 then Some (0, m)
      else
        case alloc_search buddy m sz (start buddy) of
          None \<Rightarrow> None
        | Some None \<Rightarrow> Some (0, m)
        | Some (Some block0) \<Rightarrow>
            (case alloc_split sz block0 m of
               None \<Rightarrow> None
             | Some (block, m1) \<Rightarrow>
                 Some (block + BLOCK_MEM_OFFSET, m1(block := (m1 block)\<lparr>a_free := False\<rparr>))))"

text \<open>\<open>while ((block = try_merge(buddy->start, block, buddy->stop)));\<close>\<close>

partial_function (option) merge_loop ::
  "buddy_t \<Rightarrow> nat \<Rightarrow> (nat \<Rightarrow> arena_block) \<Rightarrow> (nat \<Rightarrow> arena_block) option" where
  "merge_loop buddy block m =
     (case try_merge (start buddy) block (stop buddy) m of
        None \<Rightarrow> None
      | Some (block1, m1) \<Rightarrow> if block1 = 0 then Some m1 else merge_loop buddy block1 m1)"

declare merge_loop.simps [code]

definition buddy_free ::
  "buddy_t \<Rightarrow> nat \<Rightarrow> (nat \<Rightarrow> arena_block) \<Rightarrow> (nat \<Rightarrow> arena_block) option" where
  "buddy_free buddy ptr m = merge_loop buddy (MEM_BLOCK_PTR ptr) m"

section \<open>Invariants\<close>

text \<open>
  A region of order \<open>k\<close> at address \<open>a\<close> covers \<open>u * 2 ^ k\<close> bytes; \<open>u\<close> is the size of
  the smallest block (16 for the heap, 1 for the arena). \<open>\<sigma>\<close> gives the size field of the
  header at each address. The region is well formed when it is one block of its full size, or
  two well-formed halves. This is the tiling invariant, the power-of-two invariant and the
  buddy alignment invariant in one.
\<close>

fun buddy_ok :: "nat \<Rightarrow> (nat \<Rightarrow> nat) \<Rightarrow> nat \<Rightarrow> nat \<Rightarrow> bool" where
  "buddy_ok u \<sigma> a 0 = (\<sigma> a = u)"
| "buddy_ok u \<sigma> a (Suc k) =
     (\<sigma> a = u * 2 ^ Suc k \<or> (buddy_ok u \<sigma> a k \<and> buddy_ok u \<sigma> (a + u * 2 ^ k) k))"

text \<open>The addresses of the blocks of a region, in ascending order.\<close>

fun leaves :: "nat \<Rightarrow> (nat \<Rightarrow> nat) \<Rightarrow> nat \<Rightarrow> nat \<Rightarrow> nat list" where
  "leaves u \<sigma> a 0 = [a]"
| "leaves u \<sigma> a (Suc k) =
     (if \<sigma> a = u * 2 ^ Suc k then [a]
      else leaves u \<sigma> a k @ leaves u \<sigma> (a + u * 2 ^ k) k)"

text \<open>
  Walking from \<open>a\<close> by successive size steps with at most \<open>n\<close> steps: the addresses met,
  when the walk lands exactly on \<open>e\<close>; \<open>None\<close> when it steps over \<open>e\<close> or does not get
  there.
\<close>

fun walk :: "nat \<Rightarrow> (nat \<Rightarrow> nat) \<Rightarrow> nat \<Rightarrow> nat \<Rightarrow> nat list option" where
  "walk 0 \<sigma> a e = (if a = e then Some [] else None)"
| "walk (Suc n) \<sigma> a e =
     (if a = e then Some []
      else if e < a then None
      else map_option ((#) a) (walk n \<sigma> (a + \<sigma> a) e))"

text \<open>
  The heap invariant for a region of order \<open>K\<close>: \<open>end - start = 16 * 2 ^ K\<close>, the region is
  well formed, the program break is \<open>end\<close>, and the system never grants an address from
  \<open>2 ^ 63\<close> on.
\<close>

definition heap_inv :: "heap \<Rightarrow> nat \<Rightarrow> bool" where
  "heap_inv h K \<longleftrightarrow>
     0 < h_start h \<and> h_end h = h_start h + 16 * 2 ^ K \<and> brk h = h_end h \<and>
     brk h \<le> brk_max h \<and> brk_max h < 2 ^ 63 \<and>
     buddy_ok 16 (bsize \<circ> mem h) (h_start h) K"

text \<open>The cursor \<open>next\<close> points at a block of the region.\<close>

definition cursor_ok :: "heap \<Rightarrow> nat \<Rightarrow> bool" where
  "cursor_ok h K \<longleftrightarrow> h_next h \<in> set (leaves 16 (bsize \<circ> mem h) (h_start h) K)"

text \<open>The blocks met walking from \<open>start\<close> to \<open>end\<close>, with their headers.\<close>

definition tiling :: "heap \<Rightarrow> (nat \<times> block) list option" where
  "tiling h =
     map_option (map (\<lambda>a. (a, mem h a)))
       (walk (h_end h - h_start h) (bsize \<circ> mem h) (h_start h) (h_end h))"

definition arena_inv :: "buddy_t \<Rightarrow> (nat \<Rightarrow> arena_block) \<Rightarrow> nat \<Rightarrow> bool" where
  "arena_inv b m K \<longleftrightarrow>
     0 < start b \<and> stop b = start b + 2 ^ K \<and> stop b < 2 ^ 63 \<and>
     buddy_ok 1 (a_size \<circ> m) (start b) K"

definition arena_tiling ::
  "buddy_t \<Rightarrow> (nat \<Rightarrow> arena_block) \<Rightarrow> (nat \<times> arena_block) list option" where
  "arena_tiling b m =
     map_option (map (\<lambda>a. (a, m a)))
       (walk (stop b - start b) (a_size \<circ> m) (start b) (stop b))"

text \<open>
  \<open>heap_ext h K h' K'\<close>: \<open>h'\<close> satisfies the invariant at order \<open>K'\<close> and comes from \<open>h\<close> by
  growing the region (or not at all): the blocks of \<open>h\<close> are blocks of \<open>h'\<close>, and everything
  but the memory, \<open>end\<close> and the break is unchanged.
\<close>

definition heap_ext :: "heap \<Rightarrow> nat \<Rightarrow> heap \<Rightarrow> nat \<Rightarrow> bool" where
  "heap_ext h K h' K' \<longleftrightarrow>
     K \<le> K' \<and> heap_inv h' K' \<and> h_start h' = h_start h \<and> h_next h' = h_next h \<and>
     lock h' = lock h \<and> brk_max h' = brk_max h \<and> Buddy_Is_Init h' = Buddy_Is_Init h \<and>
     pagesize h' = pagesize h \<and> bytes h' = bytes h \<and> h_end h \<le> h_end h' \<and>
     (h_end h' = h_end h \<longrightarrow> h' = h) \<and>
     set (leaves 16 (bsize \<circ> mem h) (h_start h) K) \<subseteq>
       set (leaves 16 (bsize \<circ> mem h') (h_start h) K')"

text \<open>
  What \<open>grow\<close> and the search loop of \<open>balloc\<close> guarantee for the block \<open>b\<close> and the state
  \<open>h'\<close> they return: on failure (\<open>b = BNULL\<close>) the old region is untouched; otherwise \<open>b\<close> is
  a free block of the region.
\<close>

definition grow_post :: "heap \<Rightarrow> nat \<Rightarrow> nat \<Rightarrow> heap \<Rightarrow> bool" where
  "grow_post h K b h' \<longleftrightarrow>
     (\<exists>K'. heap_ext h K h' K' \<and>
        (b = 0 \<longrightarrow> (\<forall>x<h_end h. mem h' x = mem h x)) \<and>
        (b \<noteq> 0 \<longrightarrow> b \<in> set (leaves 16 (bsize \<circ> mem h') (h_start h) K') \<and>
                    \<not> used (mem h' b)))"

text \<open>
  The region is tiled: it satisfies the invariant at order \<open>K\<close>, and the walk from \<open>start\<close>
  by size steps ends exactly on \<open>end\<close> and meets the blocks of the region and nothing else.
\<close>

definition tiled :: "heap \<Rightarrow> nat \<Rightarrow> bool" where
  "tiled h K \<longleftrightarrow>
     heap_inv h K \<and>
     tiling h = Some (map (\<lambda>a. (a, mem h a)) (leaves 16 (bsize \<circ> mem h) (h_start h) K))"

definition arena_tiled :: "buddy_t \<Rightarrow> (nat \<Rightarrow> arena_block) \<Rightarrow> nat \<Rightarrow> bool" where
  "arena_tiled b m K \<longleftrightarrow>
     arena_inv b m K \<and>
     arena_tiling b m = Some (map (\<lambda>a. (a, m a)) (leaves 1 (a_size \<circ> m) (start b) K))"

text \<open>
  No free block of the region has a free buddy of its own size: \<open>bfree\<close> has merged all it
  could. The test is the one of the loop of \<open>join\<close>.
\<close>

definition coalesced :: "heap \<Rightarrow> nat \<Rightarrow> bool" where
  "coalesced h K \<longleftrightarrow>
     (\<forall>x \<in> set (leaves 16 (bsize \<circ> mem h) (h_start h) K).
        \<not> used (mem h x) \<longrightarrow>
        (let s = bsize (mem h x);
             y = (if (x - h_start h) mod (s * 2) = 0 then x + s else x - s)
         in y = h_end h \<or> bsize (mem h y) \<noteq> s \<or> used (mem h y)))"

section \<open>Concrete states\<close>

text \<open>
  The process before \<open>init\<close>: zeroed memory, the program break at 65536, a page size of 4096,
  and \<open>lim\<close> the highest break the system grants.
\<close>

definition boot :: "nat \<Rightarrow> heap" where
  "boot lim =
     \<lparr>mem = (\<lambda>_. \<lparr>bsize = 0, used = False\<rparr>), bytes = (\<lambda>_. 0),
      h_start = 0, h_end = 0, h_next = 0, lock = 0, Buddy_Is_Init = False,
      brk = 65536, brk_max = lim, pagesize = 4096\<rparr>"

text \<open>Zeroed memory for an arena.\<close>

definition blank :: "nat \<Rightarrow> arena_block" where
  "blank = (\<lambda>_. \<lparr>a_size = 0, a_free = False\<rparr>)"

text \<open>
  The heap after \<open>init\<close> and two calls \<open>balloc(2000)\<close>, with a system that grants no
  more memory: two used blocks of 2048 bytes.
\<close>

definition heap_two :: heap where
  "heap_two =
     \<lparr>mem = (\<lambda>_. \<lparr>bsize = 0, used = False\<rparr>)
        (65536 := \<lparr>bsize = 2048, used = True\<rparr>, 67584 := \<lparr>bsize = 2048, used = True\<rparr>),
      bytes = (\<lambda>_. 0),
      h_start = 65536, h_end = 69632, h_next = 65536, lock = 0, Buddy_Is_Init = False,
      brk = 69632, brk_max = 69632, pagesize = 4096\<rparr>"

text \<open>
  An arena of 1024 bytes at 4096 after \<open>buddy_alloc(16)\<close>: the handle and the memory.
\<close>

definition arena_one :: "buddy_t \<times> (nat \<Rightarrow> arena_block)" where
  "arena_one =
     (\<lparr>start = 4096, stop = 5120\<rparr>,
      blank(4096 := \<lparr>a_size = 32, a_free = False\<rparr>, 4128 := \<lparr>a_size = 32, a_free = True\<rparr>,
            4160 := \<lparr>a_size = 64, a_free = True\<rparr>, 4224 := \<lparr>a_size = 128, a_free = True\<rparr>,
            4352 := \<lparr>a_size = 256, a_free = True\<rparr>, 4608 := \<lparr>a_size = 512, a_free = True\<rparr>))"

text \<open>
  The heap after \<open>init\<close>, two calls \<open>balloc(2000)\<close> and \<open>bfree\<close> of the second block: a used
  and a free block of 2048 bytes, the cursor on the free one.
\<close>

definition heap_one :: heap where
  "heap_one =
     \<lparr>mem = (\<lambda>_. \<lparr>bsize = 0, used = False\<rparr>)
        (65536 := \<lparr>bsize = 2048, used = True\<rparr>, 67584 := \<lparr>bsize = 2048, used = False\<rparr>),
      bytes = (\<lambda>_. 0),
      h_start = 65536, h_end = 69632, h_next = 67584, lock = 0, Buddy_Is_Init = False,
      brk = 69632, brk_max = 69632, pagesize = 4096\<rparr>"

text \<open>
  The same heap with a system that grants memory up to the address 1000000: \<open>init\<close>, two
  calls \<open>balloc(2000)\<close> and \<open>bfree\<close> of the second block.
\<close>

definition heap_room :: heap where
  "heap_room =
     \<lparr>mem = (\<lambda>_. \<lparr>bsize = 0, used = False\<rparr>)
        (65536 := \<lparr>bsize = 2048, used = True\<rparr>, 67584 := \<lparr>bsize = 2048, used = False\<rparr>),
      bytes = (\<lambda>_. 0),
      h_start = 65536, h_end = 69632, h_next = 67584, lock = 0, Buddy_Is_Init = False,
      brk = 69632, brk_max = 1000000, pagesize = 4096\<rparr>"

section \<open>Well-formed regions\<close>

lemma ok_first_size: "buddy_ok u \<sigma> a k \<Longrightarrow> \<exists>j\<le>k. \<sigma> a = u * 2 ^ j"
proof (induction k arbitrary: a)
  case 0 then show ?case by simp
next
  case (Suc k)
  from Suc.prems have "\<sigma> a = u * 2 ^ Suc k \<or> buddy_ok u \<sigma> a k" by auto
  then show ?case
  proof
    assume "\<sigma> a = u * 2 ^ Suc k" then show ?thesis by blast
  next
    assume "buddy_ok u \<sigma> a k"
    from Suc.IH[OF this] obtain j where "j \<le> k" "\<sigma> a = u * 2 ^ j" by blast
    then show ?thesis using le_SucI by blast
  qed
qed

lemma pow2_le: "(j::nat) \<le> k \<Longrightarrow> (u::nat) * 2 ^ j \<le> u * 2 ^ k"
  by simp

lemma pow2_inj: "0 < (u::nat) \<Longrightarrow> u * 2 ^ j = u * 2 ^ k \<Longrightarrow> (j::nat) = k"
  by simp

lemma ok_first_le: "buddy_ok u \<sigma> a k \<Longrightarrow> \<sigma> a \<le> u * 2 ^ k"
  using ok_first_size[of u \<sigma> a k] by (auto simp: pow2_le)

lemma leaf_ok: "\<sigma> a = u * 2 ^ k \<Longrightarrow> buddy_ok u \<sigma> a k"
  by (cases k) auto

lemma node_not_full: "0 < u \<Longrightarrow> buddy_ok u \<sigma> a k \<Longrightarrow> \<sigma> a \<noteq> u * 2 ^ Suc k"
proof
  assume u: "0 < u" and ok: "buddy_ok u \<sigma> a k" and eq: "\<sigma> a = u * 2 ^ Suc k"
  from ok_first_le[OF ok] eq have "u * 2 ^ Suc k \<le> u * 2 ^ k" by simp
  with u show False by simp
qed

lemma leaves_bounds: "0 < u \<Longrightarrow> x \<in> set (leaves u \<sigma> a k) \<Longrightarrow> a \<le> x \<and> x < a + u * 2 ^ k"
proof (induction k arbitrary: a)
  case 0 then show ?case by simp
next
  case (Suc k)
  show ?case
  proof (cases "\<sigma> a = u * 2 ^ Suc k")
    case True with Suc.prems show ?thesis by simp
  next
    case False
    with Suc.prems have "x \<in> set (leaves u \<sigma> a k) \<or> x \<in> set (leaves u \<sigma> (a + u * 2 ^ k) k)" by simp
    then show ?thesis
    proof
      assume "x \<in> set (leaves u \<sigma> a k)"
      from Suc.IH[OF Suc.prems(1) this] show ?thesis by simp
    next
      assume "x \<in> set (leaves u \<sigma> (a + u * 2 ^ k) k)"
      from Suc.IH[OF Suc.prems(1) this] show ?thesis by simp
    qed
  qed
qed

lemma first_leaf: "a \<in> set (leaves u \<sigma> a k)"
  by (induction k arbitrary: a) auto

lemma leaves_cong:
  "(\<And>x. a \<le> x \<Longrightarrow> x < a + u * 2 ^ k \<Longrightarrow> \<sigma>' x = \<sigma> x) \<Longrightarrow> 0 < u \<Longrightarrow>
   buddy_ok u \<sigma>' a k = buddy_ok u \<sigma> a k \<and> leaves u \<sigma>' a k = leaves u \<sigma> a k"
proof (induction k arbitrary: a)
  case 0 then show ?case by simp
next
  case (Suc k)
  have h: "\<sigma>' a = \<sigma> a" using Suc.prems by simp
  have l: "buddy_ok u \<sigma>' a k = buddy_ok u \<sigma> a k \<and> leaves u \<sigma>' a k = leaves u \<sigma> a k"
    by (rule Suc.IH) (use Suc.prems in auto)
  have r: "buddy_ok u \<sigma>' (a + u * 2 ^ k) k = buddy_ok u \<sigma> (a + u * 2 ^ k) k \<and>
           leaves u \<sigma>' (a + u * 2 ^ k) k = leaves u \<sigma> (a + u * 2 ^ k) k"
    by (rule Suc.IH) (use Suc.prems in auto)
  show ?case using h l r by simp
qed

lemma leaves_cong_leaf:
  "0 < u \<Longrightarrow> buddy_ok u \<sigma> a k \<Longrightarrow> (\<And>x. x \<in> set (leaves u \<sigma> a k) \<Longrightarrow> \<sigma>' x = \<sigma> x) \<Longrightarrow>
   buddy_ok u \<sigma>' a k \<and> leaves u \<sigma>' a k = leaves u \<sigma> a k"
proof (induction k arbitrary: a)
  case 0 then show ?case by simp
next
  case (Suc k)
  have h: "\<sigma>' a = \<sigma> a" using Suc.prems(3)[OF first_leaf] .
  show ?case
  proof (cases "\<sigma> a = u * 2 ^ Suc k")
    case True with h show ?thesis by simp
  next
    case False
    with Suc.prems have okl: "buddy_ok u \<sigma> a k" and okr: "buddy_ok u \<sigma> (a + u * 2 ^ k) k" by auto
    have l: "buddy_ok u \<sigma>' a k \<and> leaves u \<sigma>' a k = leaves u \<sigma> a k"
      by (rule Suc.IH[OF Suc.prems(1) okl]) (use Suc.prems(3) False in auto)
    have r: "buddy_ok u \<sigma>' (a + u * 2 ^ k) k \<and>
             leaves u \<sigma>' (a + u * 2 ^ k) k = leaves u \<sigma> (a + u * 2 ^ k) k"
      by (rule Suc.IH[OF Suc.prems(1) okr]) (use Suc.prems(3) False in auto)
    show ?thesis using h l r False by simp
  qed
qed


lemma leaves_leaf: "\<sigma> a = u * 2 ^ k \<Longrightarrow> leaves u \<sigma> a k = [a]"
  by (cases k) auto

lemma pow2_dvd: "(j::nat) \<le> k \<Longrightarrow> (u::nat) * 2 ^ j dvd u * 2 ^ k"
  by (simp add: le_imp_power_dvd)

lemma pow2_Suc_not_dvd: "0 < (u::nat) \<Longrightarrow> \<not> u * 2 ^ Suc j dvd u * 2 ^ j"
proof
  assume u: "0 < u" and d: "u * 2 ^ Suc j dvd u * 2 ^ j"
  have "0 < u * 2 ^ j" using u by simp
  from dvd_imp_le[OF d this] show False using u by simp
qed

lemma leaf_props:
  "0 < u \<Longrightarrow> buddy_ok u \<sigma> a k \<Longrightarrow> x \<in> set (leaves u \<sigma> a k) \<Longrightarrow>
   \<exists>j\<le>k. \<sigma> x = u * 2 ^ j \<and> u * 2 ^ j dvd (x - a) \<and> x + u * 2 ^ j \<le> a + u * 2 ^ k"
proof (induction k arbitrary: a)
  case 0 then show ?case by simp
next
  case (Suc k)
  show ?case
  proof (cases "\<sigma> a = u * 2 ^ Suc k")
    case True
    with Suc.prems have "x = a" by simp
    with True show ?thesis by (intro exI[of _ "Suc k"]) simp
  next
    case False
    with Suc.prems have okl: "buddy_ok u \<sigma> a k" and okr: "buddy_ok u \<sigma> (a + u * 2 ^ k) k"
      and x: "x \<in> set (leaves u \<sigma> a k) \<or> x \<in> set (leaves u \<sigma> (a + u * 2 ^ k) k)" by auto
    from x show ?thesis
    proof
      assume xl: "x \<in> set (leaves u \<sigma> a k)"
      from Suc.IH[OF Suc.prems(1) okl xl] obtain j where
        j: "j \<le> k" "\<sigma> x = u * 2 ^ j" "u * 2 ^ j dvd (x - a)" "x + u * 2 ^ j \<le> a + u * 2 ^ k"
        by blast
      then show ?thesis by (intro exI[of _ j]) simp
    next
      assume xr: "x \<in> set (leaves u \<sigma> (a + u * 2 ^ k) k)"
      from Suc.IH[OF Suc.prems(1) okr xr] obtain j where
        j: "j \<le> k" "\<sigma> x = u * 2 ^ j" "u * 2 ^ j dvd (x - (a + u * 2 ^ k))"
           "x + u * 2 ^ j \<le> a + u * 2 ^ k + u * 2 ^ k"
        by blast
      from leaves_bounds[OF Suc.prems(1) xr] have ge: "a + u * 2 ^ k \<le> x" by simp
      then have eq: "x - a = (x - (a + u * 2 ^ k)) + u * 2 ^ k" by simp
      have "u * 2 ^ j dvd (x - a)"
        unfolding eq using j(3) pow2_dvd[OF j(1), of u] by (rule dvd_add)
      with j show ?thesis by (intro exI[of _ j]) simp
    qed
  qed
qed

lemma next_leaf:
  "0 < u \<Longrightarrow> buddy_ok u \<sigma> a k \<Longrightarrow> x \<in> set (leaves u \<sigma> a k) \<Longrightarrow>
   x + \<sigma> x = a + u * 2 ^ k \<or> x + \<sigma> x \<in> set (leaves u \<sigma> a k)"
proof (induction k arbitrary: a)
  case 0 then show ?case by simp
next
  case (Suc k)
  show ?case
  proof (cases "\<sigma> a = u * 2 ^ Suc k")
    case True
    with Suc.prems show ?thesis by simp
  next
    case False
    with Suc.prems have okl: "buddy_ok u \<sigma> a k" and okr: "buddy_ok u \<sigma> (a + u * 2 ^ k) k"
      and x: "x \<in> set (leaves u \<sigma> a k) \<or> x \<in> set (leaves u \<sigma> (a + u * 2 ^ k) k)" by auto
    from x show ?thesis
    proof
      assume xl: "x \<in> set (leaves u \<sigma> a k)"
      from Suc.IH[OF Suc.prems(1) okl xl] show ?thesis
        using False first_leaf[of "a + u * 2 ^ k" u \<sigma> k] by auto
    next
      assume xr: "x \<in> set (leaves u \<sigma> (a + u * 2 ^ k) k)"
      from Suc.IH[OF Suc.prems(1) okr xr] show ?thesis
        using False by auto
    qed
  qed
qed

lemma leaves_disjoint:
  "0 < u \<Longrightarrow> buddy_ok u \<sigma> a k \<Longrightarrow> y \<in> set (leaves u \<sigma> a k) \<Longrightarrow>
   z \<in> set (leaves u \<sigma> a k) \<Longrightarrow> y < z \<Longrightarrow> y + \<sigma> y \<le> z"
proof (induction k arbitrary: a)
  case 0 then show ?case by simp
next
  case (Suc k)
  show ?case
  proof (cases "\<sigma> a = u * 2 ^ Suc k")
    case True
    with Suc.prems show ?thesis by simp
  next
    case False
    with Suc.prems have okl: "buddy_ok u \<sigma> a k" and okr: "buddy_ok u \<sigma> (a + u * 2 ^ k) k"
      and y: "y \<in> set (leaves u \<sigma> a k) \<or> y \<in> set (leaves u \<sigma> (a + u * 2 ^ k) k)"
      and z: "z \<in> set (leaves u \<sigma> a k) \<or> z \<in> set (leaves u \<sigma> (a + u * 2 ^ k) k)" by auto
    note u = Suc.prems(1)
    from y show ?thesis
    proof
      assume yl: "y \<in> set (leaves u \<sigma> a k)"
      from z show ?thesis
      proof
        assume "z \<in> set (leaves u \<sigma> a k)"
        from Suc.IH[OF u okl yl this Suc.prems(5)] show ?thesis .
      next
        assume zr: "z \<in> set (leaves u \<sigma> (a + u * 2 ^ k) k)"
        from leaf_props[OF u okl yl] have "y + \<sigma> y \<le> a + u * 2 ^ k" by auto
        with leaves_bounds[OF u zr] show ?thesis by simp
      qed
    next
      assume yr: "y \<in> set (leaves u \<sigma> (a + u * 2 ^ k) k)"
      from z show ?thesis
      proof
        assume zl: "z \<in> set (leaves u \<sigma> a k)"
        with leaves_bounds[OF u zl] leaves_bounds[OF u yr] Suc.prems(5) show ?thesis by simp
      next
        assume "z \<in> set (leaves u \<sigma> (a + u * 2 ^ k) k)"
        from Suc.IH[OF u okr yr this Suc.prems(5)] show ?thesis .
      qed
    qed
  qed
qed

lemma split_ok:
  assumes u: "0 < u"
  shows "buddy_ok u \<sigma> a k \<Longrightarrow> x \<in> set (leaves u \<sigma> a k) \<Longrightarrow> \<sigma> x = u * 2 ^ Suc j \<Longrightarrow>
   buddy_ok u (\<sigma>(x := u * 2 ^ j, x + u * 2 ^ j := u * 2 ^ j)) a k \<and>
   set (leaves u (\<sigma>(x := u * 2 ^ j, x + u * 2 ^ j := u * 2 ^ j)) a k) =
     insert (x + u * 2 ^ j) (set (leaves u \<sigma> a k))"
proof (induction k arbitrary: a)
  case 0 then show ?case using u by simp
next
  case (Suc k)
  let ?\<sigma> = "\<sigma>(x := u * 2 ^ j, x + u * 2 ^ j := u * 2 ^ j)"
  have pos: "0 < u * 2 ^ j" using u by simp
  show ?case
  proof (cases "\<sigma> a = u * 2 ^ Suc k")
    case True
    with Suc.prems have xa: "x = a" by simp
    with True Suc.prems(3) have jk: "j = k" using u by simp
    have s1: "?\<sigma> a = u * 2 ^ k" using xa jk pos by simp
    have s2: "?\<sigma> (a + u * 2 ^ k) = u * 2 ^ k" using xa jk by simp
    have ne: "?\<sigma> a \<noteq> u * 2 ^ Suc k" using s1 u by simp
    have ok: "buddy_ok u ?\<sigma> a (Suc k)"
      using leaf_ok[of ?\<sigma> a u k, OF s1] leaf_ok[of ?\<sigma> "a + u * 2 ^ k" u k, OF s2] by simp
    have lv': "leaves u ?\<sigma> a (Suc k) = [a, a + u * 2 ^ k]"
      using ne leaves_leaf[of ?\<sigma> a u k, OF s1] leaves_leaf[of ?\<sigma> "a + u * 2 ^ k" u k, OF s2]
      by simp
    have lv: "leaves u \<sigma> a (Suc k) = [a]" using True by simp
    have "set (leaves u ?\<sigma> a (Suc k)) = insert (x + u * 2 ^ j) (set (leaves u \<sigma> a (Suc k)))"
      unfolding lv' lv using xa jk by auto
    with ok show ?thesis by blast
  next
    case False
    with Suc.prems have okl: "buddy_ok u \<sigma> a k" and okr: "buddy_ok u \<sigma> (a + u * 2 ^ k) k"
      and x: "x \<in> set (leaves u \<sigma> a k) \<or> x \<in> set (leaves u \<sigma> (a + u * 2 ^ k) k)" by auto
    from x show ?thesis
    proof
      assume xl: "x \<in> set (leaves u \<sigma> a k)"
      from leaf_props[OF u okl xl] Suc.prems(3) have "x + u * 2 ^ Suc j \<le> a + u * 2 ^ k"
        by auto
      then have b: "x + 2 * (u * 2 ^ j) \<le> a + u * 2 ^ k" by simp
      from Suc.IH[OF okl xl Suc.prems(3)] have
        l: "buddy_ok u ?\<sigma> a k" "set (leaves u ?\<sigma> a k) = insert (x + u * 2 ^ j) (set (leaves u \<sigma> a k))"
        by blast+
      have "y \<noteq> x \<and> y \<noteq> x + u * 2 ^ j" if "a + u * 2 ^ k \<le> y" for y
        using that b pos by linarith
      then have "\<And>y. a + u * 2 ^ k \<le> y \<Longrightarrow> ?\<sigma> y = \<sigma> y" by simp
      then have r: "buddy_ok u ?\<sigma> (a + u * 2 ^ k) k = buddy_ok u \<sigma> (a + u * 2 ^ k) k \<and>
               leaves u ?\<sigma> (a + u * 2 ^ k) k = leaves u \<sigma> (a + u * 2 ^ k) k"
        by (intro leaves_cong u) blast
      have ne: "?\<sigma> a \<noteq> u * 2 ^ Suc k" by (rule node_not_full[OF u l(1)])
      have ok': "buddy_ok u ?\<sigma> a (Suc k)"
        unfolding buddy_ok.simps using l(1) r okr by blast
      have "leaves u ?\<sigma> a (Suc k) = leaves u ?\<sigma> a k @ leaves u \<sigma> (a + u * 2 ^ k) k"
        unfolding leaves.simps using ne r by presburger
      moreover have "leaves u \<sigma> a (Suc k) = leaves u \<sigma> a k @ leaves u \<sigma> (a + u * 2 ^ k) k"
        unfolding leaves.simps using False by presburger
      ultimately have "set (leaves u ?\<sigma> a (Suc k)) =
          insert (x + u * 2 ^ j) (set (leaves u \<sigma> a (Suc k)))"
        using l(2) by simp
      with ok' show ?thesis by blast
    next
      assume xr: "x \<in> set (leaves u \<sigma> (a + u * 2 ^ k) k)"
      from leaves_bounds[OF u xr] have b: "a + u * 2 ^ k \<le> x" by simp
      from Suc.IH[OF okr xr Suc.prems(3)] have
        r: "buddy_ok u ?\<sigma> (a + u * 2 ^ k) k"
           "set (leaves u ?\<sigma> (a + u * 2 ^ k) k) =
            insert (x + u * 2 ^ j) (set (leaves u \<sigma> (a + u * 2 ^ k) k))"
        by blast+
      have "y \<noteq> x \<and> y \<noteq> x + u * 2 ^ j" if "y < a + u * 2 ^ k" for y
        using that b pos by linarith
      then have "\<And>y. y < a + u * 2 ^ k \<Longrightarrow> ?\<sigma> y = \<sigma> y" by simp
      then have l: "buddy_ok u ?\<sigma> a k = buddy_ok u \<sigma> a k \<and> leaves u ?\<sigma> a k = leaves u \<sigma> a k"
        by (intro leaves_cong u) blast
      have ne: "?\<sigma> a \<noteq> u * 2 ^ Suc k" using l okl node_not_full[OF u] by blast
      have ok': "buddy_ok u ?\<sigma> a (Suc k)"
        unfolding buddy_ok.simps using r(1) l okl by blast
      have "leaves u ?\<sigma> a (Suc k) = leaves u \<sigma> a k @ leaves u ?\<sigma> (a + u * 2 ^ k) k"
        unfolding leaves.simps using ne l by presburger
      moreover have "leaves u \<sigma> a (Suc k) = leaves u \<sigma> a k @ leaves u \<sigma> (a + u * 2 ^ k) k"
        unfolding leaves.simps using False by presburger
      ultimately have "set (leaves u ?\<sigma> a (Suc k)) =
          insert (x + u * 2 ^ j) (set (leaves u \<sigma> a (Suc k)))"
        using r(2) by simp
      with ok' show ?thesis by blast
    qed
  qed
qed

lemma merge_left_ok:
  assumes u: "0 < u"
  shows "buddy_ok u \<sigma> a k \<Longrightarrow> x \<in> set (leaves u \<sigma> a k) \<Longrightarrow> \<sigma> x = u * 2 ^ j \<Longrightarrow>
   u * 2 ^ Suc j dvd (x - a) \<Longrightarrow> x + u * 2 ^ j \<noteq> a + u * 2 ^ k \<Longrightarrow>
   \<sigma> (x + u * 2 ^ j) = u * 2 ^ j \<Longrightarrow>
   buddy_ok u (\<sigma>(x := u * 2 ^ Suc j)) a k \<and> x \<in> set (leaves u (\<sigma>(x := u * 2 ^ Suc j)) a k) \<and>
   set (leaves u (\<sigma>(x := u * 2 ^ Suc j)) a k) \<subseteq> set (leaves u \<sigma> a k)"
proof (induction k arbitrary: a)
  case 0
  then show ?case using u by simp
next
  case (Suc k)
  let ?\<sigma> = "\<sigma>(x := u * 2 ^ Suc j)"
  note sx = Suc.prems(3) and dv = Suc.prems(4) and ne = Suc.prems(5) and sb = Suc.prems(6)
  have pos: "0 < u * 2 ^ j" using u by simp
  show ?case
  proof (cases "\<sigma> a = u * 2 ^ Suc k")
    case True
    with Suc.prems(2) have xa: "x = a" by simp
    with True sx have "u * 2 ^ j = u * 2 ^ Suc k" by metis
    then have "j = Suc k" by (rule pow2_inj[OF u])
    with ne xa show ?thesis by simp
  next
    case False
    with Suc.prems have okl: "buddy_ok u \<sigma> a k" and okr: "buddy_ok u \<sigma> (a + u * 2 ^ k) k"
      and x: "x \<in> set (leaves u \<sigma> a k) \<or> x \<in> set (leaves u \<sigma> (a + u * 2 ^ k) k)" by auto
    have lv: "leaves u \<sigma> a (Suc k) = leaves u \<sigma> a k @ leaves u \<sigma> (a + u * 2 ^ k) k"
      unfolding leaves.simps using False by presburger
    from x show ?thesis
    proof
      assume xl: "x \<in> set (leaves u \<sigma> a k)"
      from leaf_props[OF u okl xl] sx obtain j' where
        j': "j' \<le> k" "u * 2 ^ j = u * 2 ^ j'" "x + u * 2 ^ j' \<le> a + u * 2 ^ k" by auto
      then have jk: "j \<le> k" and b: "x + u * 2 ^ j \<le> a + u * 2 ^ k" using u by auto
      from leaves_bounds[OF u xl] have ax: "a \<le> x" by simp
      show ?thesis
      proof (cases "j = k")
        case True
        with b ax have xa: "x = a" by simp
        have s1: "?\<sigma> a = u * 2 ^ Suc k" using xa True by simp
        have ok': "buddy_ok u ?\<sigma> a (Suc k)" unfolding buddy_ok.simps using s1 by blast
        have lv1: "leaves u ?\<sigma> a (Suc k) = [a]" unfolding leaves.simps using s1 by presburger
        have m1: "x \<in> set (leaves u ?\<sigma> a (Suc k))" unfolding lv1 using xa by simp
        have m3: "set (leaves u ?\<sigma> a (Suc k)) \<subseteq> set (leaves u \<sigma> a (Suc k))"
          unfolding lv1 using first_leaf[of a u \<sigma> "Suc k"] by simp
        show ?thesis using ok' m1 m3 by blast
      next
        case False
        with jk have sj: "Suc j \<le> k" by simp
        have ne': "x + u * 2 ^ j \<noteq> a + u * 2 ^ k"
        proof
          assume "x + u * 2 ^ j = a + u * 2 ^ k"
          then have "(x - a) + u * 2 ^ j = u * 2 ^ k" using ax by simp
          moreover have "u * 2 ^ Suc j dvd u * 2 ^ k" by (rule pow2_dvd[OF sj])
          ultimately have "u * 2 ^ Suc j dvd (x - a) + u * 2 ^ j" by simp
          with dv have "u * 2 ^ Suc j dvd u * 2 ^ j" by (simp only: dvd_add_right_iff)
          with pow2_Suc_not_dvd[OF u] show False by blast
        qed
        from Suc.IH[OF okl xl sx dv ne' sb] have
          l: "buddy_ok u ?\<sigma> a k" "x \<in> set (leaves u ?\<sigma> a k)"
             "set (leaves u ?\<sigma> a k) \<subseteq> set (leaves u \<sigma> a k)" by blast+
        have "y \<noteq> x" if "a + u * 2 ^ k \<le> y" for y using that b pos by linarith
        then have "\<And>y. a + u * 2 ^ k \<le> y \<Longrightarrow> ?\<sigma> y = \<sigma> y" by simp
        then have r: "buddy_ok u ?\<sigma> (a + u * 2 ^ k) k = buddy_ok u \<sigma> (a + u * 2 ^ k) k \<and>
               leaves u ?\<sigma> (a + u * 2 ^ k) k = leaves u \<sigma> (a + u * 2 ^ k) k"
          by (intro leaves_cong u) blast
        have nf: "?\<sigma> a \<noteq> u * 2 ^ Suc k" by (rule node_not_full[OF u l(1)])
        have ok': "buddy_ok u ?\<sigma> a (Suc k)"
          unfolding buddy_ok.simps using l(1) r okr by blast
        have lv': "leaves u ?\<sigma> a (Suc k) = leaves u ?\<sigma> a k @ leaves u \<sigma> (a + u * 2 ^ k) k"
          unfolding leaves.simps using nf r by presburger
        have m1: "x \<in> set (leaves u ?\<sigma> a (Suc k))" unfolding lv' using l(2) by simp
        have m3: "set (leaves u ?\<sigma> a (Suc k)) \<subseteq> set (leaves u \<sigma> a (Suc k))"
          unfolding lv lv' using l(3) by auto
        show ?thesis using ok' m1 m3 by blast
      qed
    next
      assume xr: "x \<in> set (leaves u \<sigma> (a + u * 2 ^ k) k)"
      from leaf_props[OF u okr xr] sx obtain j' where
        j': "j' \<le> k" "u * 2 ^ j = u * 2 ^ j'" "x + u * 2 ^ j' \<le> a + u * 2 ^ k + u * 2 ^ k"
        by auto
      then have jk: "j \<le> k" and b: "x + u * 2 ^ j \<le> a + u * 2 ^ k + u * 2 ^ k" using u by auto
      from leaves_bounds[OF u xr] have ax: "a + u * 2 ^ k \<le> x" by simp
      have eq: "x - a = (x - (a + u * 2 ^ k)) + u * 2 ^ k" using ax by simp
      have jk': "Suc j \<le> k"
      proof (rule ccontr)
        assume "\<not> Suc j \<le> k"
        with jk have "j = k" by simp
        with b ax have "x - a = u * 2 ^ j" by simp
        with dv pow2_Suc_not_dvd[OF u, of j] show False by simp
      qed
      have "u * 2 ^ Suc j dvd u * 2 ^ k" by (rule pow2_dvd[OF jk'])
      with dv have dv': "u * 2 ^ Suc j dvd (x - (a + u * 2 ^ k))"
        unfolding eq by (simp only: dvd_add_left_iff)
      have ne': "x + u * 2 ^ j \<noteq> a + u * 2 ^ k + u * 2 ^ k" using ne by simp
      from Suc.IH[OF okr xr sx dv' ne' sb] have
        r: "buddy_ok u ?\<sigma> (a + u * 2 ^ k) k" "x \<in> set (leaves u ?\<sigma> (a + u * 2 ^ k) k)"
           "set (leaves u ?\<sigma> (a + u * 2 ^ k) k) \<subseteq> set (leaves u \<sigma> (a + u * 2 ^ k) k)"
        by blast+
      have "y \<noteq> x" if "y < a + u * 2 ^ k" for y using that ax by linarith
      then have "\<And>y. y < a + u * 2 ^ k \<Longrightarrow> ?\<sigma> y = \<sigma> y" by simp
      then have l: "buddy_ok u ?\<sigma> a k = buddy_ok u \<sigma> a k \<and> leaves u ?\<sigma> a k = leaves u \<sigma> a k"
        by (intro leaves_cong u) blast
      have nf: "?\<sigma> a \<noteq> u * 2 ^ Suc k" using l okl node_not_full[OF u] by blast
      have ok': "buddy_ok u ?\<sigma> a (Suc k)"
        unfolding buddy_ok.simps using r(1) l okl by blast
      have lv': "leaves u ?\<sigma> a (Suc k) = leaves u \<sigma> a k @ leaves u ?\<sigma> (a + u * 2 ^ k) k"
        unfolding leaves.simps using nf l by presburger
      have m1: "x \<in> set (leaves u ?\<sigma> a (Suc k))" unfolding lv' using r(2) by simp
      have m3: "set (leaves u ?\<sigma> a (Suc k)) \<subseteq> set (leaves u \<sigma> a (Suc k))"
        unfolding lv lv' using r(3) by auto
      show ?thesis using ok' m1 m3 by blast
    qed
  qed
qed

lemma merge_right_ok:
  assumes u: "0 < u"
  shows "buddy_ok u \<sigma> a k \<Longrightarrow> x \<in> set (leaves u \<sigma> a k) \<Longrightarrow> \<sigma> x = u * 2 ^ j \<Longrightarrow>
   \<not> u * 2 ^ Suc j dvd (x - a) \<Longrightarrow> \<sigma> (x - u * 2 ^ j) = u * 2 ^ j \<Longrightarrow>
   a + u * 2 ^ j \<le> x \<and>
   buddy_ok u (\<sigma>(x - u * 2 ^ j := u * 2 ^ Suc j)) a k \<and>
   x - u * 2 ^ j \<in> set (leaves u (\<sigma>(x - u * 2 ^ j := u * 2 ^ Suc j)) a k) \<and>
   x \<notin> set (leaves u (\<sigma>(x - u * 2 ^ j := u * 2 ^ Suc j)) a k) \<and>
   set (leaves u (\<sigma>(x - u * 2 ^ j := u * 2 ^ Suc j)) a k) \<subseteq> set (leaves u \<sigma> a k)"
proof (induction k arbitrary: a)
  case 0
  then show ?case by simp
next
  case (Suc k)
  let ?b = "x - u * 2 ^ j"
  let ?\<sigma> = "\<sigma>(?b := u * 2 ^ Suc j)"
  note sx = Suc.prems(3) and dv = Suc.prems(4) and sb = Suc.prems(5)
  have pos: "0 < u * 2 ^ j" using u by simp
  show ?case
  proof (cases "\<sigma> a = u * 2 ^ Suc k")
    case True
    with Suc.prems(2) have xa: "x = a" by simp
    with dv show ?thesis by simp
  next
    case False
    with Suc.prems have okl: "buddy_ok u \<sigma> a k" and okr: "buddy_ok u \<sigma> (a + u * 2 ^ k) k"
      and x: "x \<in> set (leaves u \<sigma> a k) \<or> x \<in> set (leaves u \<sigma> (a + u * 2 ^ k) k)" by auto
    have lv: "leaves u \<sigma> a (Suc k) = leaves u \<sigma> a k @ leaves u \<sigma> (a + u * 2 ^ k) k"
      unfolding leaves.simps using False by presburger
    from x show ?thesis
    proof
      assume xl: "x \<in> set (leaves u \<sigma> a k)"
      from leaves_bounds[OF u xl] have xb: "a \<le> x" "x < a + u * 2 ^ k" by simp_all
      from Suc.IH[OF okl xl sx dv sb] have
        l: "a + u * 2 ^ j \<le> x" "buddy_ok u ?\<sigma> a k" "?b \<in> set (leaves u ?\<sigma> a k)"
           "x \<notin> set (leaves u ?\<sigma> a k)"
           "set (leaves u ?\<sigma> a k) \<subseteq> set (leaves u \<sigma> a k)" by blast+
      have "y \<noteq> ?b" if "a + u * 2 ^ k \<le> y" for y using that xb pos by linarith
      then have "\<And>y. a + u * 2 ^ k \<le> y \<Longrightarrow> ?\<sigma> y = \<sigma> y" by simp
      then have r: "buddy_ok u ?\<sigma> (a + u * 2 ^ k) k = buddy_ok u \<sigma> (a + u * 2 ^ k) k \<and>
             leaves u ?\<sigma> (a + u * 2 ^ k) k = leaves u \<sigma> (a + u * 2 ^ k) k"
        by (intro leaves_cong u) blast
      have nf: "?\<sigma> a \<noteq> u * 2 ^ Suc k" by (rule node_not_full[OF u l(2)])
      have ok': "buddy_ok u ?\<sigma> a (Suc k)"
        unfolding buddy_ok.simps using l(2) r okr by blast
      have lv': "leaves u ?\<sigma> a (Suc k) = leaves u ?\<sigma> a k @ leaves u \<sigma> (a + u * 2 ^ k) k"
        unfolding leaves.simps using nf r by presburger
      have xnr: "x \<notin> set (leaves u \<sigma> (a + u * 2 ^ k) k)"
        using leaves_bounds[OF u, of x \<sigma> "a + u * 2 ^ k" k] xb by auto
      have m1: "?b \<in> set (leaves u ?\<sigma> a (Suc k))" unfolding lv' using l(3) by simp
      have m2: "x \<notin> set (leaves u ?\<sigma> a (Suc k))" unfolding lv' using l(4) xnr by simp
      have m3: "set (leaves u ?\<sigma> a (Suc k)) \<subseteq> set (leaves u \<sigma> a (Suc k))"
        unfolding lv lv' using l(5) by auto
      show ?thesis using l(1) ok' m1 m2 m3 by blast
    next
      assume xr: "x \<in> set (leaves u \<sigma> (a + u * 2 ^ k) k)"
      from leaf_props[OF u okr xr] sx obtain j' where
        j': "j' \<le> k" "u * 2 ^ j = u * 2 ^ j'" "x + u * 2 ^ j' \<le> a + u * 2 ^ k + u * 2 ^ k"
        by auto
      then have jk: "j \<le> k" and b: "x + u * 2 ^ j \<le> a + u * 2 ^ k + u * 2 ^ k" using u by auto
      from leaves_bounds[OF u xr] have ax: "a + u * 2 ^ k \<le> x" by simp
      have eq: "x - a = (x - (a + u * 2 ^ k)) + u * 2 ^ k" using ax by simp
      show ?thesis
      proof (cases "j = k")
        case True
        with b ax have xa: "x = a + u * 2 ^ k" by simp
        have ba: "?b = a" using xa True by simp
        have s1: "?\<sigma> a = u * 2 ^ Suc k" using ba True by simp
        have ok': "buddy_ok u ?\<sigma> a (Suc k)" unfolding buddy_ok.simps using s1 by blast
        have lv': "leaves u ?\<sigma> a (Suc k) = [a]" unfolding leaves.simps using s1 by presburger
        have m0: "a + u * 2 ^ j \<le> x" using xa True by simp
        have xna: "x \<noteq> a" using xa pos True by simp
        have m1: "?b \<in> set (leaves u ?\<sigma> a (Suc k))" by (subst lv') (simp add: ba)
        have m2: "x \<notin> set (leaves u ?\<sigma> a (Suc k))" unfolding lv' using xna by simp
        have m3: "set (leaves u ?\<sigma> a (Suc k)) \<subseteq> set (leaves u \<sigma> a (Suc k))"
          unfolding lv' using first_leaf[of a u \<sigma> "Suc k"] by simp
        show ?thesis using m0 ok' m1 m2 m3 by blast
      next
        case False
        with jk have sj: "Suc j \<le> k" by simp
        have dk: "u * 2 ^ Suc j dvd u * 2 ^ k" by (rule pow2_dvd[OF sj])
        have dv': "\<not> u * 2 ^ Suc j dvd (x - (a + u * 2 ^ k))"
        proof
          assume "u * 2 ^ Suc j dvd (x - (a + u * 2 ^ k))"
          from dvd_add[OF this dk] have "u * 2 ^ Suc j dvd (x - a)" by (simp only: eq)
          with dv show False by blast
        qed
        from Suc.IH[OF okr xr sx dv' sb] have
          r: "a + u * 2 ^ k + u * 2 ^ j \<le> x" "buddy_ok u ?\<sigma> (a + u * 2 ^ k) k"
             "?b \<in> set (leaves u ?\<sigma> (a + u * 2 ^ k) k)"
             "x \<notin> set (leaves u ?\<sigma> (a + u * 2 ^ k) k)"
             "set (leaves u ?\<sigma> (a + u * 2 ^ k) k) \<subseteq> set (leaves u \<sigma> (a + u * 2 ^ k) k)"
          by blast+
        have "y \<noteq> ?b" if "y < a + u * 2 ^ k" for y using that r(1) by linarith
        then have "\<And>y. y < a + u * 2 ^ k \<Longrightarrow> ?\<sigma> y = \<sigma> y" by simp
        then have l: "buddy_ok u ?\<sigma> a k = buddy_ok u \<sigma> a k \<and> leaves u ?\<sigma> a k = leaves u \<sigma> a k"
          by (intro leaves_cong u) blast
        have nf: "?\<sigma> a \<noteq> u * 2 ^ Suc k" using l okl node_not_full[OF u] by blast
        have ok': "buddy_ok u ?\<sigma> a (Suc k)"
          unfolding buddy_ok.simps using r(2) l okl by blast
        have lv': "leaves u ?\<sigma> a (Suc k) = leaves u \<sigma> a k @ leaves u ?\<sigma> (a + u * 2 ^ k) k"
          unfolding leaves.simps using nf l by presburger
        have xnl: "x \<notin> set (leaves u \<sigma> a k)"
          using leaves_bounds[OF u, of x \<sigma> a k] ax by auto
        have m0: "a + u * 2 ^ j \<le> x" using r(1) by simp
        have m1: "?b \<in> set (leaves u ?\<sigma> a (Suc k))" unfolding lv' using r(3) by simp
        have m2: "x \<notin> set (leaves u ?\<sigma> a (Suc k))" unfolding lv' using r(4) xnl by simp
        have m3: "set (leaves u ?\<sigma> a (Suc k)) \<subseteq> set (leaves u \<sigma> a (Suc k))"
          unfolding lv lv' using r(5) by auto
        show ?thesis using m0 ok' m1 m2 m3 by blast
      qed
    qed
  qed
qed

section \<open>Running the code on concrete states\<close>

text \<open>The equations that evaluate the code by rewriting.\<close>

lemmas heap_eval =
  init_def boot_def balloc_def balloc_body_def balloc_search.simps balloc_split.simps
  MEMSIZE_def HALFMEMSIZE_def NEXT_def split_def pthread_mutex_lock_def
  pthread_mutex_unlock_def Let_def grow_def grow_loop.simps grow_size.simps BLOCKSIZE_def
  BYTEDIFF_def sbrk_def bfree_def join_def join_loop.simps BLOCK_def brealloc_def
  brealloc_shrink.simps brealloc_absorb.simps

lemmas arena_eval =
  blank_def buddy_init_def buddy_alloc_def buddy_free_def alloc_search.simps
  alloc_split.simps merge_loop.simps try_merge_def is_left_def split_a_def get_next_def
  BLOCK_BYTE_OFFSET_def MEM_SIZE_def MEM_BLOCK_PTR_def p2align_down_def Let_def

section \<open>Walking a well-formed region\<close>


lemma walk_mono: "walk n \<sigma> a e = Some xs \<Longrightarrow> walk (n + d) \<sigma> a e = Some xs"
proof (induction n arbitrary: a xs)
  case 0
  then show ?case by (cases d) (auto split: if_splits)
next
  case (Suc n)
  then show ?case by (auto split: if_splits)
qed

lemma dbl: "(a::nat) + u * 2 ^ k + u * 2 ^ k = a + u * 2 ^ Suc k"
  by simp

lemma walk_region:
  assumes u: "0 < u"
  shows "buddy_ok u \<sigma> a k \<Longrightarrow> a + u * 2 ^ k \<le> e \<Longrightarrow> walk n \<sigma> (a + u * 2 ^ k) e = Some ys \<Longrightarrow>
    walk (n + length (leaves u \<sigma> a k)) \<sigma> a e = Some (leaves u \<sigma> a k @ ys)"
proof (induction k arbitrary: a n ys)
  case 0
  then show ?case using u by simp
next
  case (Suc k)
  have pos: "0 < u * 2 ^ k" using u by simp
  show ?case
  proof (cases "\<sigma> a = u * 2 ^ Suc k")
    case True
    have e0: "a + 2 * (u * 2 ^ k) \<le> e" using Suc.prems(2) by simp
    have "a \<noteq> e" "\<not> e < a" using e0 pos by linarith+
    then show ?thesis using True Suc.prems(3) by simp
  next
    case False
    with Suc.prems have okl: "buddy_ok u \<sigma> a k" and okr: "buddy_ok u \<sigma> (a + u * 2 ^ k) k"
      by auto
    have e1: "a + u * 2 ^ k + u * 2 ^ k \<le> e" using Suc.prems(2) by simp
    have w0: "walk n \<sigma> (a + u * 2 ^ k + u * 2 ^ k) e = Some ys"
      using Suc.prems(3) by (simp only: dbl)
    from Suc.IH[OF okr e1 w0] have
      w1: "walk (n + length (leaves u \<sigma> (a + u * 2 ^ k) k)) \<sigma> (a + u * 2 ^ k) e =
           Some (leaves u \<sigma> (a + u * 2 ^ k) k @ ys)" .
    have e2: "a + u * 2 ^ k \<le> e" using e1 by simp
    from Suc.IH[OF okl e2 w1] show ?thesis using False by (simp add: ac_simps)
  qed
qed

lemma length_leaves: "length (leaves u \<sigma> a k) \<le> 2 ^ k"
proof (induction k arbitrary: a)
  case 0 show ?case by simp
next
  case (Suc k)
  have "length (leaves u \<sigma> a k) + length (leaves u \<sigma> (a + u * 2 ^ k) k) \<le> 2 ^ k + 2 ^ k"
    by (rule add_mono) (rule Suc.IH)+
  then show ?case by simp
qed

lemma walk_leaves:
  assumes u: "0 < u" and ok: "buddy_ok u \<sigma> a k"
  shows "walk (u * 2 ^ k) \<sigma> a (a + u * 2 ^ k) = Some (leaves u \<sigma> a k)"
proof -
  have "walk 0 \<sigma> (a + u * 2 ^ k) (a + u * 2 ^ k) = Some []" by simp
  from walk_region[OF u ok _ this] have
    w: "walk (length (leaves u \<sigma> a k)) \<sigma> a (a + u * 2 ^ k) = Some (leaves u \<sigma> a k)" by simp
  have "length (leaves u \<sigma> a k) \<le> u * 2 ^ k"
  proof -
    have "(2::nat) ^ k \<le> u * 2 ^ k" using u by simp
    with length_leaves[of u \<sigma> a k] show ?thesis by (rule le_trans)
  qed
  then obtain d where "u * 2 ^ k = length (leaves u \<sigma> a k) + d"
    using le_Suc_ex by blast
  with walk_mono[OF w, of d] show ?thesis by simp
qed

lemma heap_inv_tiling:
  "heap_inv h K \<Longrightarrow>
   tiling h = Some (map (\<lambda>a. (a, mem h a)) (leaves 16 (bsize \<circ> mem h) (h_start h) K))"
  using walk_leaves[of 16 "bsize \<circ> mem h" "h_start h" K]
  by (simp add: heap_inv_def tiling_def)

lemma arena_inv_tiling:
  "arena_inv b m K \<Longrightarrow>
   arena_tiling b m = Some (map (\<lambda>a. (a, m a)) (leaves 1 (a_size \<circ> m) (start b) K))"
  using walk_leaves[of 1 "a_size \<circ> m" "start b" K]
  by (simp add: arena_inv_def arena_tiling_def)

section \<open>The coalescing loop of the heap\<close>


lemma BYTEDIFF_sub: "p \<le> q \<Longrightarrow> q < W \<Longrightarrow> BYTEDIFF p q = q - p"
proof -
  assume a: "p \<le> q" "q < W"
  then have "q + W - p = (q - p) + W" by simp
  then have "(q + W - p) mod W = (q - p) mod W" by (simp only: mod_add_self2)
  with a show ?thesis by (simp add: BYTEDIFF_def)
qed

lemma join_loop_unfold:
  assumes "(s * 2) mod W = s * 2" "s \<noteq> 0" "BYTEDIFF (h_start h) b = b - h_start h"
  shows "join_loop h b s =
     (if (b - h_start h) mod (s * 2) = 0
      then (if b + s = h_end h \<or> bsize (mem h (b + s)) \<noteq> s \<or> used (mem h (b + s))
            then Some (b, s) else join_loop h b (s * 2))
      else (if b - s = h_end h \<or> bsize (mem h (b - s)) \<noteq> s \<or> used (mem h (b - s))
            then Some (b, s) else join_loop h (b - s) (s * 2)))"
  by (subst join_loop.simps) (simp add: assms Let_def)

lemma pow2_le_mono: "0 < (u::nat) \<Longrightarrow> u * 2 ^ j \<le> u * 2 ^ k \<Longrightarrow> (j::nat) \<le> k"
  by simp

lemma join_loop_total:
  assumes st: "0 < h_start h" and en: "h_end h = h_start h + 16 * 2 ^ K"
    and lt: "h_end h < 2 ^ 63" and sg: "\<And>x. bsize (mem h x) = \<sigma> x"
  shows "buddy_ok 16 (\<sigma>(b := 16 * 2 ^ j)) (h_start h) K \<Longrightarrow>
         b \<in> set (leaves 16 (\<sigma>(b := 16 * 2 ^ j)) (h_start h) K) \<Longrightarrow>
         \<exists>b' j'. join_loop h b (16 * 2 ^ j) = Some (b', 16 * 2 ^ j') \<and>
            buddy_ok 16 (\<sigma>(b' := 16 * 2 ^ j')) (h_start h) K \<and>
            b' \<in> set (leaves 16 (\<sigma>(b' := 16 * 2 ^ j')) (h_start h) K) \<and>
            j \<le> j' \<and> b' \<le> b \<and> b + 16 * 2 ^ j \<le> b' + 16 * 2 ^ j'"
proof (induction "K - j" arbitrary: b j rule: less_induct)
  case less
  define s :: nat where "s = 16 * 2 ^ j"
  let ?\<tau> = "\<sigma>(b := 16 * 2 ^ j)"
  note ok = less.prems(1) and lf = less.prems(2)
  have u: "0 < (16::nat)" by simp
  have tb: "?\<tau> b = 16 * 2 ^ j" by simp
  from leaf_props[OF u ok lf] obtain j' where
    j': "j' \<le> K" "?\<tau> b = 16 * 2 ^ j'" "16 * 2 ^ j' dvd (b - h_start h)"
        "b + 16 * 2 ^ j' \<le> h_start h + 16 * 2 ^ K" by blast
  from j'(2) have "16 * 2 ^ j' = s" by (simp add: s_def)
  with j' have dv: "s dvd (b - h_start h)" and bnd: "b + s \<le> h_end h"
    using en by simp_all
  from leaves_bounds[OF u lf] have sb: "h_start h \<le> b" by simp
  have pos: "0 < s" by (simp add: s_def)
  have bW: "b < W" using bnd lt by simp
  have s63: "s < 2 ^ 63" using bnd lt by simp
  have m2: "(s * 2) mod W = s * 2" using s63 by simp
  have ne0: "s \<noteq> 0" using pos by simp
  have bd: "BYTEDIFF (h_start h) b = b - h_start h" by (rule BYTEDIFF_sub[OF sb bW])
  have e2: "s * 2 = 16 * 2 ^ Suc j" by (simp add: s_def)
  note unf = join_loop_unfold[OF m2 ne0 bd]
  show ?case
  proof (cases "s * 2 dvd (b - h_start h)")
    case True
    then have left: "(b - h_start h) mod (s * 2) = 0"
      using mod_eq_0_iff_dvd[of "b - h_start h" "s * 2"] by blast
    show ?thesis
    proof (cases "b + s = h_end h \<or> bsize (mem h (b + s)) \<noteq> s \<or> used (mem h (b + s))")
      case True
      have "join_loop h b s = Some (b, s)" using unf left True by presburger
      with less.prems show ?thesis unfolding s_def by blast
    next
      case False
      have step: "join_loop h b s = join_loop h b (16 * 2 ^ Suc j)"
        using unf left False unfolding e2 by presburger
      have dv2: "16 * 2 ^ Suc j dvd (b - h_start h)" using True by (simp only: e2)
      have ne: "b + 16 * 2 ^ j \<noteq> h_start h + 16 * 2 ^ K" using False en by (simp add: s_def)
      have "b + s \<noteq> b" using pos by simp
      then have sbud: "?\<tau> (b + 16 * 2 ^ j) = 16 * 2 ^ j"
        using False sg[of "b + s"] by (simp add: s_def)
      from merge_left_ok[OF u ok lf tb dv2 ne sbud] have
        ok': "buddy_ok 16 (\<sigma>(b := 16 * 2 ^ Suc j)) (h_start h) K"
        and lf': "b \<in> set (leaves 16 (\<sigma>(b := 16 * 2 ^ Suc j)) (h_start h) K)"
        by (simp_all only: fun_upd_upd)
      from leaf_props[OF u ok' lf'] obtain i where
        i: "i \<le> K" "(\<sigma>(b := 16 * 2 ^ Suc j)) b = 16 * 2 ^ i" by blast
      from i(2) have "16 * 2 ^ Suc j = (16::nat) * 2 ^ i" by (simp only: fun_upd_same)
      from pow2_inj[OF u this] i(1) have sK: "Suc j \<le> K" by simp
      then have "K - Suc j < K - j" by simp
      from less.hyps[OF this ok' lf'] obtain b' j' where
        r: "join_loop h b (16 * 2 ^ Suc j) = Some (b', 16 * 2 ^ j')"
           "buddy_ok 16 (\<sigma>(b' := 16 * 2 ^ j')) (h_start h) K"
           "b' \<in> set (leaves 16 (\<sigma>(b' := 16 * 2 ^ j')) (h_start h) K)"
           "Suc j \<le> j'" "b' \<le> b" "b + 16 * 2 ^ Suc j \<le> b' + 16 * 2 ^ j'" by blast
      have "j \<le> j'" using r(4) by simp
      moreover have "b + 16 * 2 ^ j \<le> b' + 16 * 2 ^ j'" using r(6) by simp
      moreover have "join_loop h b (16 * 2 ^ j) = Some (b', 16 * 2 ^ j')"
        using step r(1) unfolding s_def by simp
      ultimately show ?thesis using r(2,3,5) by blast
    qed
  next
    case False
    then have right: "(b - h_start h) mod (s * 2) \<noteq> 0"
      using mod_eq_0_iff_dvd[of "b - h_start h" "s * 2"] by blast
    have bne: "b - s \<noteq> h_end h" using bnd pos by linarith
    show ?thesis
    proof (cases "bsize (mem h (b - s)) \<noteq> s \<or> used (mem h (b - s))")
      case True
      have "join_loop h b s = Some (b, s)" using unf right True by presburger
      with less.prems show ?thesis unfolding s_def by blast
    next
      case stop: False
      have step: "join_loop h b s = join_loop h (b - 16 * 2 ^ j) (16 * 2 ^ Suc j)"
        using unf right stop bne unfolding e2 unfolding s_def by presburger
      have ndv: "\<not> 16 * 2 ^ Suc j dvd (b - h_start h)" using False unfolding e2 by blast
      have bb: "b - s \<noteq> b" using sb st pos by linarith
      then have sbud: "?\<tau> (b - 16 * 2 ^ j) = 16 * 2 ^ j"
        using stop sg[of "b - s"] by (simp add: s_def)
      let ?\<tau>' = "?\<tau>(b - 16 * 2 ^ j := 16 * 2 ^ Suc j)"
      let ?\<sigma>' = "\<sigma>(b - 16 * 2 ^ j := 16 * 2 ^ Suc j)"
      from merge_right_ok[OF u ok lf tb ndv sbud] have
        ge: "h_start h + 16 * 2 ^ j \<le> b"
        and ok1: "buddy_ok 16 ?\<tau>' (h_start h) K"
        and lf1: "b - 16 * 2 ^ j \<in> set (leaves 16 ?\<tau>' (h_start h) K)"
        and nb: "b \<notin> set (leaves 16 ?\<tau>' (h_start h) K)"
        by blast+
      have agree: "?\<sigma>' x = ?\<tau>' x" if "x \<in> set (leaves 16 ?\<tau>' (h_start h) K)" for x
      proof -
        from that nb have "x \<noteq> b" by blast
        then show ?thesis by simp
      qed
      from leaves_cong_leaf[OF u ok1 agree] have
        ok': "buddy_ok 16 ?\<sigma>' (h_start h) K"
        and lv: "leaves 16 ?\<sigma>' (h_start h) K = leaves 16 ?\<tau>' (h_start h) K" by blast+
      have lf': "b - 16 * 2 ^ j \<in> set (leaves 16 ?\<sigma>' (h_start h) K)"
        using lf1 by (simp only: lv)
      from leaf_props[OF u ok' lf'] obtain i where
        i: "i \<le> K" "?\<sigma>' (b - 16 * 2 ^ j) = 16 * 2 ^ i" by blast
      from i(2) have "16 * 2 ^ Suc j = (16::nat) * 2 ^ i" by (simp only: fun_upd_same)
      from pow2_inj[OF u this] i(1) have sK: "Suc j \<le> K" by simp
      then have "K - Suc j < K - j" by simp
      from less.hyps[OF this ok' lf'] obtain b' j' where
        r: "join_loop h (b - 16 * 2 ^ j) (16 * 2 ^ Suc j) = Some (b', 16 * 2 ^ j')"
           "buddy_ok 16 (\<sigma>(b' := 16 * 2 ^ j')) (h_start h) K"
           "b' \<in> set (leaves 16 (\<sigma>(b' := 16 * 2 ^ j')) (h_start h) K)"
           "Suc j \<le> j'" "b' \<le> b - 16 * 2 ^ j"
           "b - 16 * 2 ^ j + 16 * 2 ^ Suc j \<le> b' + 16 * 2 ^ j'" by blast
      have "j \<le> j'" using r(4) by simp
      moreover have "b' \<le> b" using r(5) by simp
      moreover have "b + 16 * 2 ^ j \<le> b' + 16 * 2 ^ j'" using r(6) ge by simp
      moreover have "join_loop h b (16 * 2 ^ j) = Some (b', 16 * 2 ^ j')"
        using step r(1) unfolding s_def by simp
      ultimately show ?thesis using r(2,3) by blast
    qed
  qed
qed



lemma heap_inv_lt: "heap_inv h K \<Longrightarrow> h_end h < 2 ^ 63"
  by (simp add: heap_inv_def)

lemma bfree_total:
  assumes inv: "heap_inv h K"
    and lf: "BLOCK p \<in> set (leaves 16 (bsize \<circ> mem h) (h_start h) K)" and p: "p \<noteq> 0"
  shows "\<exists>b j. bfree p h =
            Some (h\<lparr>mem := (mem h)(b := \<lparr>bsize = 16 * 2 ^ j, used = False\<rparr>), h_next := b\<rparr>) \<and>
          buddy_ok 16 ((bsize \<circ> mem h)(b := 16 * 2 ^ j)) (h_start h) K \<and>
          b \<in> set (leaves 16 ((bsize \<circ> mem h)(b := 16 * 2 ^ j)) (h_start h) K) \<and>
          b \<le> BLOCK p \<and> BLOCK p + bsize (mem h (BLOCK p)) \<le> b + 16 * 2 ^ j"
proof -
  let ?h = "pthread_mutex_lock h"
  let ?\<sigma> = "bsize \<circ> mem h"
  have u: "0 < (16::nat)" by simp
  have st: "0 < h_start ?h" and en: "h_end ?h = h_start ?h + 16 * 2 ^ K"
    and lt: "h_end ?h < 2 ^ 63" and sg: "\<And>x. bsize (mem ?h x) = ?\<sigma> x"
    using inv by (simp_all add: heap_inv_def pthread_mutex_lock_def)
  have ok: "buddy_ok 16 ?\<sigma> (h_start h) K" using inv by (simp add: heap_inv_def)
  from leaf_props[OF u ok lf] obtain j0 where j0: "?\<sigma> (BLOCK p) = 16 * 2 ^ j0" by blast
  have triv: "?\<sigma>(BLOCK p := 16 * 2 ^ j0) = ?\<sigma>" using j0 by (metis fun_upd_triv)
  have hs: "h_start ?h = h_start h" by (simp add: pthread_mutex_lock_def)
  have ok0: "buddy_ok 16 (?\<sigma>(BLOCK p := 16 * 2 ^ j0)) (h_start ?h) K"
    and lf0: "BLOCK p \<in> set (leaves 16 (?\<sigma>(BLOCK p := 16 * 2 ^ j0)) (h_start ?h) K)"
    using ok lf unfolding triv hs by blast+
  from join_loop_total[OF st en lt sg ok0 lf0] obtain b j where
    r: "join_loop ?h (BLOCK p) (16 * 2 ^ j0) = Some (b, 16 * 2 ^ j)"
       "buddy_ok 16 (?\<sigma>(b := 16 * 2 ^ j)) (h_start ?h) K"
       "b \<in> set (leaves 16 (?\<sigma>(b := 16 * 2 ^ j)) (h_start ?h) K)"
       "b \<le> BLOCK p" "BLOCK p + 16 * 2 ^ j0 \<le> b + 16 * 2 ^ j" by blast
  have bs: "bsize (mem ?h (BLOCK p)) = 16 * 2 ^ j0" using j0 sg by simp
  have "bfree p h =
      Some (h\<lparr>mem := (mem h)(b := \<lparr>bsize = 16 * 2 ^ j, used = False\<rparr>), h_next := b\<rparr>)"
    using p r(1) bs
    by (simp add: bfree_def join_def Let_def pthread_mutex_lock_def pthread_mutex_unlock_def)
  moreover have "BLOCK p + bsize (mem h (BLOCK p)) \<le> b + 16 * 2 ^ j"
    using r(5) j0 by simp
  ultimately show ?thesis using r(2,3,4) unfolding hs by blast
qed

lemma heap_inv_mem_upd:
  "heap_inv h K \<Longrightarrow> buddy_ok 16 (bsize \<circ> m) (h_start h) K \<Longrightarrow>
   heap_inv (h\<lparr>mem := m, h_next := n\<rparr>) K"
  by (simp add: heap_inv_def)

section \<open>The coalescing loop of the arena\<close>


lemma wrap_sub: "s \<le> x \<Longrightarrow> x < W \<Longrightarrow> 0 < s \<Longrightarrow> (x + (W - s) mod W) mod W = x - s"
proof -
  assume a: "s \<le> x" "x < W" "0 < s"
  then have "s < W" by simp
  with a have e: "(W - s) mod W = W - s" by simp
  have "x + (W - s) = (x - s) + W" using a \<open>s < W\<close> by simp
  then have "(x + (W - s)) mod W = (x - s) mod W" by (simp only: mod_add_self2)
  with a e show ?thesis by simp
qed

lemma try_merge_left:
  assumes "a_size (m x) = s" "(s * 2) mod W = s * 2" "s \<noteq> 0" "strt \<le> x" "x + s < W"
    and "(x - strt) mod (s * 2) = 0"
  shows "try_merge strt x stp m =
     Some (if x + s \<ge> stp \<or> \<not> a_free (m (x + s)) \<or> a_size (m (x + s)) \<noteq> s then (0, m)
           else (x, m(x := \<lparr>a_size = s * 2, a_free = True\<rparr>)))"
proof -
  have "x < W" using assms(5) by simp
  with assms(4) have o: "(x + W - strt) mod W = x - strt"
    using BYTEDIFF_sub[of strt x] by (simp add: BYTEDIFF_def)
  have n: "(x + s) mod W = x + s" using assms(5) by simp
  show ?thesis
    using assms(1,2,3,6)
    by (simp add: try_merge_def is_left_def BLOCK_BYTE_OFFSET_def Let_def o n)
qed

lemma try_merge_right:
  assumes "a_size (m x) = s" "(s * 2) mod W = s * 2" "s \<noteq> 0" "strt \<le> x" "x < W" "s \<le> x"
    and "(x - strt) mod (s * 2) \<noteq> 0"
  shows "try_merge strt x stp m =
     Some (if x - s \<ge> stp \<or> \<not> a_free (m (x - s)) \<or> a_size (m (x - s)) \<noteq> s then (0, m)
           else (x - s, m(x - s := \<lparr>a_size = s * 2, a_free = True\<rparr>)))"
proof -
  have o: "(x + W - strt) mod W = x - strt"
    using BYTEDIFF_sub[of strt x] assms(4,5) by (simp add: BYTEDIFF_def)
  have n: "(x + (W - s) mod W) mod W = x - s" using wrap_sub[of s x] assms(3,5,6) by simp
  have "x + W - s = (x - s) + W" using assms(6) by simp
  then have "(x + W - s) mod W = (x - s) mod W" by (simp only: mod_add_self2)
  then have n2: "(x + W - s) mod W = x - s" using assms(5) by simp
  show ?thesis
    using assms(1,2,3,7)
    by (simp add: try_merge_def is_left_def BLOCK_BYTE_OFFSET_def Let_def o n n2)
qed

lemma one_pow: "(1::nat) * 2 ^ j = 2 ^ j"
  by simp

lemma merge_loop_total:
  assumes st: "0 < start b" and en: "stop b = start b + 2 ^ K" and lt: "stop b < 2 ^ 63"
  shows "buddy_ok 1 (a_size \<circ> m) (start b) K \<Longrightarrow>
         x \<in> set (leaves 1 (a_size \<circ> m) (start b) K) \<Longrightarrow> a_size (m x) = 2 ^ j \<Longrightarrow>
         \<exists>m'. merge_loop b x m = Some m' \<and> buddy_ok 1 (a_size \<circ> m') (start b) K"
proof (induction "K - j" arbitrary: x j m rule: less_induct)
  case less
  let ?\<sigma> = "a_size \<circ> m"
  define s :: nat where "s = 2 ^ j"
  note ok = less.prems(1) and lf = less.prems(2)
  have u: "0 < (1::nat)" by simp
  have sx: "?\<sigma> x = 1 * 2 ^ j" using less.prems(3) by simp
  have ms: "a_size (m x) = s" using less.prems(3) by (simp add: s_def)
  from leaf_props[OF u ok lf] obtain j' where
    j': "j' \<le> K" "?\<sigma> x = 1 * 2 ^ j'" "1 * 2 ^ j' dvd (x - start b)"
        "x + 1 * 2 ^ j' \<le> start b + 1 * 2 ^ K" by blast
  from j'(2) sx have "j' = j" by simp
  with j' have dv: "s dvd (x - start b)" and bnd: "x + s \<le> stop b"
    using en by (simp_all add: s_def)
  from leaves_bounds[OF u lf] have sb: "start b \<le> x" by simp
  have pos: "0 < s" by (simp add: s_def)
  have xs: "x + s < W" using bnd lt by simp
  have s63: "s < 2 ^ 63" using bnd lt by simp
  have m2: "(s * 2) mod W = s * 2" using s63 by simp
  have ne0: "s \<noteq> 0" using pos by simp
  have e2: "s * 2 = 1 * 2 ^ Suc j" by (simp add: s_def)
  have x0: "x \<noteq> 0" using sb st by simp
  show ?case
  proof (cases "s * 2 dvd (x - start b)")
    case True
    then have left: "(x - start b) mod (s * 2) = 0"
      using mod_eq_0_iff_dvd[of "x - start b" "s * 2"] by blast
    note tm = try_merge_left[where m=m and x=x and s=s and strt="start b" and stp="stop b",
        OF ms m2 ne0 sb xs left]
    show ?thesis
    proof (cases "x + s \<ge> stop b \<or> \<not> a_free (m (x + s)) \<or> a_size (m (x + s)) \<noteq> s")
      case True
      then have "try_merge (start b) x (stop b) m = Some (0, m)" using tm by presburger
      then have "merge_loop b x m = Some m" by (subst merge_loop.simps) simp
      with ok show ?thesis by blast
    next
      case False
      let ?m = "m(x := \<lparr>a_size = s * 2, a_free = True\<rparr>)"
      from False have "try_merge (start b) x (stop b) m = Some (x, ?m)" using tm by presburger
      then have step: "merge_loop b x m = merge_loop b x ?m"
        using x0 by (subst merge_loop.simps) simp
      have dv2: "1 * 2 ^ Suc j dvd (x - start b)" using True by (simp only: e2)
      have ne: "x + 1 * 2 ^ j \<noteq> start b + 1 * 2 ^ K" using False en by (simp add: s_def)
      have sbud: "?\<sigma> (x + 1 * 2 ^ j) = 1 * 2 ^ j" using False by (simp add: s_def)
      have cm: "a_size \<circ> ?m = ?\<sigma>(x := 1 * 2 ^ Suc j)"
        by (simp only: fun_upd_comp arena_block.simps e2)
      from merge_left_ok[OF u ok lf sx dv2 ne sbud] have
        ok': "buddy_ok 1 (a_size \<circ> ?m) (start b) K"
        and lf': "x \<in> set (leaves 1 (a_size \<circ> ?m) (start b) K)"
        unfolding cm by blast+
      have sz': "a_size (?m x) = 2 ^ Suc j" by (simp add: s_def)
      from leaf_props[OF u ok' lf'] obtain i where
        i: "i \<le> K" "(a_size \<circ> ?m) x = 1 * 2 ^ i" by blast
      from i(2) sz' have "(1::nat) * 2 ^ Suc j = 1 * 2 ^ i" by simp
      from pow2_inj[OF u this] i(1) have "Suc j \<le> K" by simp
      then have "K - Suc j < K - j" by simp
      from less.hyps[OF this ok' lf' sz'] show ?thesis unfolding step .
    qed
  next
    case False
    then have right: "(x - start b) mod (s * 2) \<noteq> 0"
      using mod_eq_0_iff_dvd[of "x - start b" "s * 2"] by blast
    have ndv: "\<not> 1 * 2 ^ Suc j dvd (x - start b)" using False unfolding e2 by blast
    have sle: "s \<le> x"
    proof -
      have "x - start b \<noteq> 0" using False by (metis dvd_0_right)
      then have "s \<le> x - start b" using dvd_imp_le[OF dv] by simp
      then show ?thesis by simp
    qed
    have xW: "x < W" using xs by simp
    note tm = try_merge_right[where m=m and x=x and s=s and strt="start b" and stp="stop b",
        OF ms m2 ne0 sb xW sle right]
    show ?thesis
    proof (cases "x - s \<ge> stop b \<or> \<not> a_free (m (x - s)) \<or> a_size (m (x - s)) \<noteq> s")
      case True
      then have "try_merge (start b) x (stop b) m = Some (0, m)" using tm by presburger
      then have "merge_loop b x m = Some m" by (subst merge_loop.simps) simp
      with ok show ?thesis by blast
    next
      case stp: False
      let ?m = "m(x - s := \<lparr>a_size = s * 2, a_free = True\<rparr>)"
      from stp have tmr: "try_merge (start b) x (stop b) m = Some (x - s, ?m)"
        using tm by presburger
      have sbud: "?\<sigma> (x - 1 * 2 ^ j) = 1 * 2 ^ j" using stp by (simp add: s_def)
      have cm: "a_size \<circ> ?m = ?\<sigma>(x - 1 * 2 ^ j := 1 * 2 ^ Suc j)"
        unfolding s_def by (simp only: fun_upd_comp arena_block.simps) (simp add: mult.commute)
      from merge_right_ok[OF u ok lf sx ndv sbud] have
        ge: "start b + 1 * 2 ^ j \<le> x"
        and ok': "buddy_ok 1 (a_size \<circ> ?m) (start b) K"
        and lf': "x - 1 * 2 ^ j \<in> set (leaves 1 (a_size \<circ> ?m) (start b) K)"
        unfolding cm by blast+
      have xs0: "x - s \<noteq> 0" using ge st by (simp add: s_def)
      have step: "merge_loop b x m = merge_loop b (x - s) ?m"
        using tmr xs0 by (subst merge_loop.simps) simp
      have lf'': "x - s \<in> set (leaves 1 (a_size \<circ> ?m) (start b) K)"
        using lf' by (simp add: s_def)
      have sz': "a_size (?m (x - s)) = 2 ^ Suc j" by (simp add: s_def)
      from leaf_props[OF u ok' lf''] obtain i where
        i: "i \<le> K" "(a_size \<circ> ?m) (x - s) = 1 * 2 ^ i" by blast
      from i(2) sz' have "(1::nat) * 2 ^ Suc j = 1 * 2 ^ i" by simp
      from pow2_inj[OF u this] i(1) have "Suc j \<le> K" by simp
      then have "K - Suc j < K - j" by simp
      from less.hyps[OF this ok' lf'' sz'] show ?thesis unfolding step .
    qed
  qed
qed

lemma buddy_free_total:
  assumes inv: "arena_inv b m K"
    and lf: "MEM_BLOCK_PTR p \<in> set (leaves 1 (a_size \<circ> m) (start b) K)"
  shows "\<exists>m'. buddy_free b p m = Some m' \<and> arena_inv b m' K"
proof -
  have u: "0 < (1::nat)" by simp
  have st: "0 < start b" and en: "stop b = start b + 2 ^ K" and lt: "stop b < 2 ^ 63"
    and ok: "buddy_ok 1 (a_size \<circ> m) (start b) K"
    using inv by (simp_all add: arena_inv_def)
  from leaf_props[OF u ok lf] obtain j where "(a_size \<circ> m) (MEM_BLOCK_PTR p) = 1 * 2 ^ j"
    by blast
  then have sz: "a_size (m (MEM_BLOCK_PTR p)) = 2 ^ j" by simp
  from merge_loop_total[OF st en lt ok lf sz] show ?thesis
    using st en lt by (auto simp: buddy_free_def arena_inv_def)
qed

section \<open>The concrete states\<close>

lemma heap_two_reached:
  "do { h \<leftarrow> init Ctor (boot 69632);
        (a, h1) \<leftarrow> balloc Ctor 2000 h;
        (p, h2) \<leftarrow> balloc Ctor 2000 h1;
        Some (a, p, h2) } = Some (65552, 67600, heap_two)"
  by (simp add: heap_eval heap_two_def)

lemma arena_one_reached:
  "(case buddy_init 4096 2047 blank of
      (b, m) \<Rightarrow> do { (p, m1) \<leftarrow> buddy_alloc b 16 m; Some (p, b, m1) })
   = Some (4112, arena_one)"
  by (simp add: arena_eval arena_one_def fun_upd_twist)

lemma buddy_ok_numeral:
  "buddy_ok u \<sigma> a (numeral n) =
     (if \<sigma> a = u * 2 ^ numeral n then True
      else buddy_ok u \<sigma> a (pred_numeral n) \<and>
           buddy_ok u \<sigma> (a + u * 2 ^ pred_numeral n) (pred_numeral n))"
  by (simp add: numeral_eq_Suc)

lemma leaves_numeral:
  "leaves u \<sigma> a (numeral n) =
     (if \<sigma> a = u * 2 ^ numeral n then [a]
      else leaves u \<sigma> a (pred_numeral n) @
           leaves u \<sigma> (a + u * 2 ^ pred_numeral n) (pred_numeral n))"
  by (simp add: numeral_eq_Suc)

lemma buddy_ok_1: "buddy_ok u \<sigma> a 1 = (if \<sigma> a = u * 2 then True else \<sigma> a = u \<and> \<sigma> (a + u) = u)"
  using buddy_ok.simps(2)[of u \<sigma> a 0] by simp

lemma heap_two_inv: "heap_inv heap_two 8"
  by (simp add: heap_inv_def heap_two_def buddy_ok_numeral)

lemma heap_two_leaves: "leaves 16 (bsize \<circ> mem heap_two) 65536 8 = [65536, 67584]"
  by (simp add: heap_two_def leaves_numeral)

lemma arena_one_inv: "arena_inv (fst arena_one) (snd arena_one) 10"
  by (simp add: arena_inv_def arena_one_def blank_def buddy_ok_numeral buddy_ok_1)

lemma arena_one_leaves:
  "leaves 1 (a_size \<circ> snd arena_one) 4096 10 = [4096, 4128, 4160, 4224, 4352, 4608]"
  by (simp add: arena_one_def blank_def leaves_numeral)

lemma heap_one_reached: "bfree 67600 heap_two = Some heap_one"
  by (simp add: heap_eval heap_two_def heap_one_def)

lemma heap_one_inv: "heap_inv heap_one 8"
  by (simp add: heap_inv_def heap_one_def buddy_ok_numeral)

lemma heap_one_leaves: "leaves 16 (bsize \<circ> mem heap_one) 65536 8 = [65536, 67584]"
  by (simp add: heap_one_def leaves_numeral)

section \<open>Growing the region\<close>

lemma grow_right:
  assumes u: "0 < u" and ok: "buddy_ok u \<sigma> a k"
  shows "buddy_ok u (\<sigma>(a + u * 2 ^ k := u * 2 ^ k)) a (Suc k) \<and>
         a + u * 2 ^ k \<in> set (leaves u (\<sigma>(a + u * 2 ^ k := u * 2 ^ k)) a (Suc k)) \<and>
         set (leaves u \<sigma> a k) \<subseteq> set (leaves u (\<sigma>(a + u * 2 ^ k := u * 2 ^ k)) a (Suc k))"
proof -
  let ?\<sigma> = "\<sigma>(a + u * 2 ^ k := u * 2 ^ k)"
  have "\<And>x. x < a + u * 2 ^ k \<Longrightarrow> ?\<sigma> x = \<sigma> x" by simp
  then have l: "buddy_ok u ?\<sigma> a k = buddy_ok u \<sigma> a k \<and> leaves u ?\<sigma> a k = leaves u \<sigma> a k"
    by (intro leaves_cong u) blast
  have s: "?\<sigma> (a + u * 2 ^ k) = u * 2 ^ k" by simp
  have okl: "buddy_ok u ?\<sigma> a k" using l ok by blast
  have okr: "buddy_ok u ?\<sigma> (a + u * 2 ^ k) k"
    by (rule leaf_ok[of ?\<sigma> "a + u * 2 ^ k" u k, OF s])
  have lr: "leaves u ?\<sigma> (a + u * 2 ^ k) k = [a + u * 2 ^ k]"
    by (rule leaves_leaf[of ?\<sigma> "a + u * 2 ^ k" u k, OF s])
  have nf: "?\<sigma> a \<noteq> u * 2 ^ Suc k" by (rule node_not_full[OF u okl])
  have ok': "buddy_ok u ?\<sigma> a (Suc k)" unfolding buddy_ok.simps using okl okr by blast
  have lv: "leaves u ?\<sigma> a (Suc k) = leaves u \<sigma> a k @ [a + u * 2 ^ k]"
    unfolding leaves.simps using nf l lr by presburger
  have m1: "a + u * 2 ^ k \<in> set (leaves u ?\<sigma> a (Suc k))" unfolding lv by simp
  have m3: "set (leaves u \<sigma> a k) \<subseteq> set (leaves u ?\<sigma> a (Suc k))" unfolding lv by auto
  show ?thesis using ok' m1 m3 by blast
qed

lemma prefix_replace:
  assumes u: "0 < u"
  shows "K \<le> K' \<Longrightarrow> buddy_ok u \<sigma> a K' \<Longrightarrow> buddy_ok u \<sigma> a K \<Longrightarrow> buddy_ok u \<sigma>' a K \<Longrightarrow>
    (\<And>x. a + u * 2 ^ K \<le> x \<Longrightarrow> \<sigma>' x = \<sigma> x) \<Longrightarrow> buddy_ok u \<sigma>' a K'"
proof (induction K')
  case 0
  then show ?case by simp
next
  case (Suc k)
  show ?case
  proof (cases "K = Suc k")
    case True
    with Suc.prems(4) show ?thesis by simp
  next
    case False
    with Suc.prems(1) have Kk: "K \<le> k" by simp
    have "\<sigma> a \<le> u * 2 ^ K" by (rule ok_first_le[OF Suc.prems(3)])
    also have "\<dots> \<le> u * 2 ^ k" by (rule pow2_le[OF Kk])
    also have "\<dots> < u * 2 ^ Suc k" using u by simp
    finally have "\<sigma> a \<noteq> u * 2 ^ Suc k" by simp
    with Suc.prems(2) have okl: "buddy_ok u \<sigma> a k" and okr: "buddy_ok u \<sigma> (a + u * 2 ^ k) k"
      by auto
    have l: "buddy_ok u \<sigma>' a k"
      by (rule Suc.IH[OF Kk okl Suc.prems(3,4,5)])
    have "\<And>x. a + u * 2 ^ k \<le> x \<Longrightarrow> \<sigma>' x = \<sigma> x"
    proof -
      fix x assume "a + u * 2 ^ k \<le> x"
      with pow2_le[OF Kk, of u] have "a + u * 2 ^ K \<le> x" by linarith
      then show "\<sigma>' x = \<sigma> x" by (rule Suc.prems(5))
    qed
    then have "buddy_ok u \<sigma>' (a + u * 2 ^ k) k = buddy_ok u \<sigma> (a + u * 2 ^ k) k \<and>
          leaves u \<sigma>' (a + u * 2 ^ k) k = leaves u \<sigma> (a + u * 2 ^ k) k"
      by (intro leaves_cong u) simp
    with okr have r: "buddy_ok u \<sigma>' (a + u * 2 ^ k) k" by blast
    show ?thesis unfolding buddy_ok.simps using l r by blast
  qed
qed

lemma W60: "W = 16 * 2 ^ 60"
  by simp

lemma pow2_less_D: "(u::nat) * 2 ^ i < u * 2 ^ k \<Longrightarrow> i < k"
proof (rule ccontr)
  assume a: "u * 2 ^ i < u * 2 ^ k" and "\<not> i < k"
  then have "k \<le> i" by simp
  from pow2_le[OF this, of u] a show False by simp
qed

lemma double_wrap:
  assumes si: "sz = 16 * 2 ^ i" and sw: "sz < W"
  shows "(sz * 2) mod W = 16 * 2 ^ Suc i \<and> (16::nat) * 2 ^ Suc i < W \<or> (sz * 2) mod W = 0"
proof -
  have "(16::nat) * 2 ^ i < 16 * 2 ^ 60" using sw unfolding si W60 .
  then have i60: "i < 60" by (rule pow2_less_D)
  show ?thesis
  proof (cases "Suc i < 60")
    case True
    then have "Suc i \<le> 59" by simp
    then have "(16::nat) * 2 ^ Suc i \<le> 16 * 2 ^ 59" by (rule pow2_le)
    also have "\<dots> < W" by simp
    finally have "(16::nat) * 2 ^ Suc i < W" .
    moreover have "sz * 2 = 16 * 2 ^ Suc i" using si by simp
    ultimately have "(sz * 2) mod W = 16 * 2 ^ Suc i \<and> (16::nat) * 2 ^ Suc i < W" by simp
    then show ?thesis by blast
  next
    case False
    with i60 have "i = 59" by simp
    with si have "sz * 2 = W" by simp
    then show ?thesis by simp
  qed
qed

lemma grow_size_spec:
  assumes "grow_size sz required = Some y"
  shows "(sz = 0 \<longrightarrow> required = 0) \<and>
   (\<forall>i. sz = 16 * 2 ^ i \<and> sz < W \<longrightarrow> (\<exists>i'\<ge>i. y = 16 * 2 ^ i' \<and> y < W))"
proof (rule grow_size.raw_induct[where P = "\<lambda>sz required y. (sz = 0 \<longrightarrow> required = 0) \<and>
   (\<forall>i. sz = 16 * 2 ^ i \<and> sz < W \<longrightarrow> (\<exists>i'\<ge>i. y = 16 * 2 ^ i' \<and> y < W))", OF _ assms])
  fix g :: "nat \<Rightarrow> nat \<Rightarrow> nat option" and sz required y
  assume IH0: "\<And>sz r y. g sz r = Some y \<Longrightarrow> (sz = 0 \<longrightarrow> r = 0) \<and>
      (\<forall>i. sz = 16 * 2 ^ i \<and> sz < W \<longrightarrow> (\<exists>i'\<ge>i. y = 16 * 2 ^ i' \<and> y < W))"
    and eq: "(if sz < required then g ((sz * 2) mod W) required else Some sz) = Some y"
  show "(sz = 0 \<longrightarrow> required = 0) \<and>
      (\<forall>i. sz = 16 * 2 ^ i \<and> sz < W \<longrightarrow> (\<exists>i'\<ge>i. y = 16 * 2 ^ i' \<and> y < W))"
  proof (cases "sz < required")
    case False
    with eq have ys: "y = sz" by simp
    have "sz = 0 \<longrightarrow> required = 0" using False by simp
    moreover have "\<forall>i. sz = 16 * 2 ^ i \<and> sz < W \<longrightarrow> (\<exists>i'\<ge>i. y = 16 * 2 ^ i' \<and> y < W)"
      unfolding ys by blast
    ultimately show ?thesis by (rule conjI)
  next
    case True
    with eq have rec: "g ((sz * 2) mod W) required = Some y" by simp
    note IH = IH0[OF rec]
    have a: "sz = 0 \<longrightarrow> required = 0"
    proof
      assume "sz = 0"
      then have "(sz * 2) mod W = 0" by simp
      with IH show "required = 0" by blast
    qed
    have b: "\<exists>i'\<ge>i. y = 16 * 2 ^ i' \<and> y < W" if si: "sz = 16 * 2 ^ i" and sw: "sz < W" for i
    proof -
      from double_wrap[OF si sw] show ?thesis
      proof
        assume d: "(sz * 2) mod W = 16 * 2 ^ Suc i \<and> (16::nat) * 2 ^ Suc i < W"
        moreover have "(sz * 2) mod W < W" by simp
        ultimately obtain i' where "i' \<ge> Suc i" "y = 16 * 2 ^ i'" "y < W" using IH by blast
        then show ?thesis using Suc_leD by blast
      next
        assume "(sz * 2) mod W = 0"
        with IH have "required = 0" by blast
        with True show ?thesis by simp
      qed
    qed
    have "\<forall>i. sz = 16 * 2 ^ i \<and> sz < W \<longrightarrow> (\<exists>i'\<ge>i. y = 16 * 2 ^ i' \<and> y < W)"
      using b by blast
    with a show ?thesis by (rule conjI)
  qed
qed

lemma heap_ext_refl: "heap_inv h K \<Longrightarrow> heap_ext h K h K"
  by (simp add: heap_ext_def)

lemma heap_inv_order:
  assumes "heap_inv h K" "heap_inv h K'"
  shows "K = K'"
proof -
  from assms have "h_start h + 16 * 2 ^ K = h_start h + 16 * 2 ^ K'" by (simp add: heap_inv_def)
  then have "(16::nat) * 2 ^ K = 16 * 2 ^ K'" by simp
  then show ?thesis by (rule pow2_inj[rotated]) simp
qed

lemma heap_ext_trans:
  assumes a: "heap_ext h K h1 K1" and b: "heap_ext h1 K1 h2 K2"
  shows "heap_ext h K h2 K2"
proof -
  have s: "h_start h1 = h_start h" using a by (simp add: heap_ext_def)
  have e: "h_end h2 = h_end h \<longrightarrow> h2 = h"
  proof
    assume eq: "h_end h2 = h_end h"
    from a b have "h_end h \<le> h_end h1" "h_end h1 \<le> h_end h2" by (simp_all add: heap_ext_def)
    with eq have "h_end h1 = h_end h" "h_end h2 = h_end h1" by simp_all
    with a b show "h2 = h" by (simp add: heap_ext_def)
  qed
  have l: "set (leaves 16 (bsize \<circ> mem h) (h_start h) K) \<subseteq>
        set (leaves 16 (bsize \<circ> mem h2) (h_start h) K2)"
    using a b unfolding heap_ext_def s by blast
  show ?thesis using a b e l unfolding heap_ext_def by simp
qed

lemma grow_step:
  assumes inv: "heap_inv h K" and room: "brk h + 16 * 2 ^ K \<le> brk_max h"
  defines "h2 \<equiv> h\<lparr>brk := brk h + 16 * 2 ^ K,
                   mem := (mem h)(h_end h := \<lparr>bsize = 16 * 2 ^ K, used = False\<rparr>),
                   h_end := h_end h + 16 * 2 ^ K\<rparr>"
  shows "heap_ext h K h2 (Suc K)" and "h_end h \<in> set (leaves 16 (bsize \<circ> mem h2) (h_start h2) (Suc K))"
    and "\<not> used (mem h2 (h_end h))" and "\<And>x. x < h_end h \<Longrightarrow> mem h2 x = mem h x"
    and "h_end h < h_end h2"
proof -
  let ?\<sigma> = "bsize \<circ> mem h"
  have u: "0 < (16::nat)" by simp
  have en: "h_end h = h_start h + 16 * 2 ^ K" and ok: "buddy_ok 16 ?\<sigma> (h_start h) K"
    using inv by (simp_all add: heap_inv_def)
  have cm: "bsize \<circ> mem h2 = ?\<sigma>(h_start h + 16 * 2 ^ K := 16 * 2 ^ K)"
    unfolding h2_def en by (simp add: fun_upd_comp)
  from grow_right[OF u ok] have
    g: "buddy_ok 16 (bsize \<circ> mem h2) (h_start h) (Suc K)"
       "h_start h + 16 * 2 ^ K \<in> set (leaves 16 (bsize \<circ> mem h2) (h_start h) (Suc K))"
       "set (leaves 16 ?\<sigma> (h_start h) K) \<subseteq> set (leaves 16 (bsize \<circ> mem h2) (h_start h) (Suc K))"
    unfolding cm by blast+
  have f: "h_start h2 = h_start h" "h_next h2 = h_next h" "lock h2 = lock h"
    "brk_max h2 = brk_max h" "Buddy_Is_Init h2 = Buddy_Is_Init h" "pagesize h2 = pagesize h"
    "bytes h2 = bytes h" "h_end h2 = h_end h + 16 * 2 ^ K" "brk h2 = brk h + 16 * 2 ^ K"
    by (simp_all add: h2_def)
  have inv2: "heap_inv h2 (Suc K)"
    unfolding heap_inv_def f using inv room g(1) by (simp add: heap_inv_def)
  show "heap_ext h K h2 (Suc K)"
    unfolding heap_ext_def f using inv2 g(3) by simp
  show "h_end h \<in> set (leaves 16 (bsize \<circ> mem h2) (h_start h2) (Suc K))"
    unfolding f en using g(2) .
  show "\<not> used (mem h2 (h_end h))" by (simp add: h2_def)
  show "\<And>x. x < h_end h \<Longrightarrow> mem h2 x = mem h x" by (simp add: h2_def)
  show "h_end h < h_end h2" unfolding f by simp
qed

lemma heap_inv_bytediff: "heap_inv h K \<Longrightarrow> BYTEDIFF (h_start h) (h_end h) = 16 * 2 ^ K"
proof -
  assume inv: "heap_inv h K"
  then have "h_start h \<le> h_end h" "h_end h < W" by (simp_all add: heap_inv_def)
  from BYTEDIFF_sub[OF this] inv show ?thesis by (simp add: heap_inv_def)
qed

lemma grow_loop_spec:
  assumes "grow_loop required h = Some y"
  shows "\<forall>K. heap_inv h K \<longrightarrow> grow_post h K (fst y) (snd y)"
proof (rule grow_loop.raw_induct[where P = "\<lambda>required h y.
         \<forall>K. heap_inv h K \<longrightarrow> grow_post h K (fst y) (snd y)", OF _ assms])
  fix g :: "nat \<Rightarrow> heap \<Rightarrow> (nat \<times> heap) option" and required h y
  assume IH: "\<And>r h y. g r h = Some y \<Longrightarrow> \<forall>K. heap_inv h K \<longrightarrow> grow_post h K (fst y) (snd y)"
    and eq: "(let current_size = BYTEDIFF (h_start h) (h_end h) in
      case sbrk current_size h of
        (None, h1) \<Rightarrow> Some (BNULL, h1)
      | (Some old, h1) \<Rightarrow>
          (let block = h_end h1;
               m = (mem h1)(block := \<lparr>bsize = current_size, used = False\<rparr>);
               h2 = h1\<lparr>mem := m, h_end := NEXT m block\<rparr>
           in if current_size < required then g required h2 else Some (block, h2))) = Some y"
  show "\<forall>K. heap_inv h K \<longrightarrow> grow_post h K (fst y) (snd y)"
  proof (intro allI impI)
    fix K assume inv: "heap_inv h K"
    define h2 where "h2 = h\<lparr>brk := brk h + 16 * 2 ^ K,
                   mem := (mem h)(h_end h := \<lparr>bsize = 16 * 2 ^ K, used = False\<rparr>),
                   h_end := h_end h + 16 * 2 ^ K\<rparr>"
    note bd = heap_inv_bytediff[OF inv]
    show "grow_post h K (fst y) (snd y)"
    proof (cases "brk h + 16 * 2 ^ K \<le> brk_max h")
      case False
      with eq have "y = (0, h)" by (simp add: bd sbrk_def Let_def)
      then show ?thesis using heap_ext_refl[OF inv] by (auto simp: grow_post_def)
    next
      case True
      note st = grow_step[OF inv True, folded h2_def]
      have e0: "h_end h \<noteq> 0" using inv by (simp add: heap_inv_def)
      have inv2: "heap_inv h2 (Suc K)" using st(1) by (simp add: heap_ext_def)
      have s2: "h_start h2 = h_start h" using st(1) by (simp add: heap_ext_def)
      note room = True
      show ?thesis
      proof (cases "16 * 2 ^ K < required")
        case False
        with room eq have y: "y = (h_end h, h2)"
          by (simp add: bd sbrk_def Let_def NEXT_def h2_def)
        show ?thesis unfolding grow_post_def y fst_conv snd_conv
          using st(1,2,3) e0 s2 by (intro exI[of _ "Suc K"]) simp
      next
        case True
        with room eq have "g required h2 = Some y"
          by (simp add: bd sbrk_def Let_def NEXT_def h2_def)
        from IH[OF this] inv2 have gp: "grow_post h2 (Suc K) (fst y) (snd y)" by simp
        from gp[unfolded grow_post_def] obtain K' where
          r0: "heap_ext h2 (Suc K) (snd y) K' \<and>
             (fst y = 0 \<longrightarrow> (\<forall>x<h_end h2. mem (snd y) x = mem h2 x)) \<and>
             (fst y \<noteq> 0 \<longrightarrow> fst y \<in> set (leaves 16 (bsize \<circ> mem (snd y)) (h_start h2) K') \<and>
                    \<not> used (mem (snd y) (fst y)))" ..
        note r = conjunct1[OF r0] conjunct1[OF conjunct2[OF r0]] conjunct2[OF conjunct2[OF r0]]
        have ext: "heap_ext h K (snd y) K'" by (rule heap_ext_trans[OF st(1) r(1)])
        have fr: "fst y = 0 \<longrightarrow> (\<forall>x<h_end h. mem (snd y) x = mem h x)"
        proof (intro impI allI)
          fix x assume y0: "fst y = 0" and xl: "x < h_end h"
          from xl st(5) have "x < h_end h2" by simp
          with r(2) y0 have "mem (snd y) x = mem h2 x" by simp
          with st(4)[OF xl] show "mem (snd y) x = mem h x" by simp
        qed
        have "heap_ext h K (snd y) K' \<and>
             (fst y = 0 \<longrightarrow> (\<forall>x<h_end h. mem (snd y) x = mem h x)) \<and>
             (fst y \<noteq> 0 \<longrightarrow> fst y \<in> set (leaves 16 (bsize \<circ> mem (snd y)) (h_start h) K') \<and>
                    \<not> used (mem (snd y) (fst y)))"
          using ext fr r(3) unfolding s2 by (intro conjI)
        then show ?thesis unfolding grow_post_def by (rule exI)
      qed
    qed
  qed
qed

lemma grow_spec:
  assumes g: "grow required0 h = Some y" and inv: "heap_inv h K"
  shows "grow_post h K (fst y) (snd y)"
proof (cases "NEXT (mem h) (h_start h) = h_end h \<and> \<not> used (mem h (h_start h))")
  case False
  with g have "grow_loop (BLOCKSIZE required0) h = Some y" by (simp add: grow_def Let_def)
  from grow_loop_spec[OF this] inv show ?thesis by simp
next
  case True
  define s0 where "s0 = bsize (mem h (h_start h))"
  from True inv have s0: "s0 = 16 * 2 ^ K" by (simp add: NEXT_def heap_inv_def s0_def)
  from inv have lt: "h_end h < 2 ^ 63" by (rule heap_inv_lt)
  from inv have en: "h_end h = h_start h + 16 * 2 ^ K" by (simp add: heap_inv_def)
  from lt en have s0W: "s0 < W" by (simp add: s0)
  from True g obtain sz where gs: "grow_size s0 (BLOCKSIZE required0) = Some sz"
    by (cases "grow_size s0 (BLOCKSIZE required0)") (simp_all add: grow_def Let_def s0_def)
  from grow_size_spec[OF gs] s0 s0W obtain i where i: "K \<le> i" "sz = 16 * 2 ^ i" "sz < W" by blast
  from pow2_le[OF i(1), of 16] have le: "s0 \<le> sz" by (simp add: i s0)
  then have d: "(sz + W - s0) mod W = sz - s0" using i(3)
    by (metis Nat.add_diff_assoc2 add.commute mod_add_self1 mod_less less_imp_diff_less)
  from True g gs have e: "(case sbrk (sz - s0) h of
                (None, h1) \<Rightarrow> Some (BNULL, h1)
              | (Some old, h1) \<Rightarrow>
                  (let m = (mem h1)(h_start h1 := (mem h1 (h_start h1))\<lparr>bsize := sz\<rparr>)
                   in Some (h_start h1, h1\<lparr>mem := m, h_end := NEXT m (h_start h1)\<rparr>))) = Some y"
    by (simp add: grow_def Let_def s0_def[symmetric] d)
  show ?thesis
  proof (cases "brk h + (sz - s0) \<le> brk_max h")
    case False
    with e have "y = (0, h)" by (simp add: sbrk_def)
    then show ?thesis using heap_ext_refl[OF inv] by (auto simp: grow_post_def)
  next
    case room: True
    define h2 where "h2 = h\<lparr>brk := brk h + (sz - s0),
         mem := (mem h)(h_start h := (mem h (h_start h))\<lparr>bsize := sz\<rparr>), h_end := h_start h + sz\<rparr>"
    from room e have y: "y = (h_start h, h2)" by (simp add: sbrk_def Let_def NEXT_def h2_def)
    have st: "0 < h_start h" using inv by (simp add: heap_inv_def)
    have ok2: "buddy_ok 16 (bsize \<circ> mem h2) (h_start h) i"
      by (rule leaf_ok) (simp add: h2_def i)
    have l2: "leaves 16 (bsize \<circ> mem h2) (h_start h) i = [h_start h]"
      by (rule leaves_leaf) (simp add: h2_def i)
    have l1: "leaves 16 (bsize \<circ> mem h) (h_start h) K = [h_start h]"
      by (rule leaves_leaf) (simp add: s0[symmetric] s0_def)
    have inv2: "heap_inv h2 i"
      unfolding heap_inv_def using inv ok2 room le
      by (simp add: h2_def heap_inv_def i s0)
    have same: "h_end h2 = h_end h \<longrightarrow> h2 = h"
    proof
      assume "h_end h2 = h_end h"
      then have "sz = s0" using en by (simp add: h2_def s0)
      moreover have "h_start h + s0 = h_end h" using en by (simp add: s0)
      ultimately show "h2 = h" by (simp add: h2_def s0_def)
    qed
    have ext: "heap_ext h K h2 i"
      unfolding heap_ext_def using inv2 i(1) same l1 l2 le
      by (simp add: h2_def en s0 i(2))
    have nu: "\<not> used (mem h2 (h_start h))" using True by (simp add: h2_def)
    show ?thesis unfolding grow_post_def y fst_conv snd_conv
      using ext l2 nu st by (intro exI[of _ i]) simp
  qed
qed

section \<open>Allocation\<close>

lemma leaf_pos:
  assumes "heap_inv h K" "x \<in> set (leaves 16 (bsize \<circ> mem h) (h_start h) K)"
  shows "0 < x \<and> x < h_end h"
proof -
  from leaves_bounds[OF _ assms(2)] have "h_start h \<le> x \<and> x < h_start h + 16 * 2 ^ K" by simp
  with assms(1) show ?thesis by (simp add: heap_inv_def)
qed

lemma balloc_search_spec:
  assumes "balloc_search sz h block = Some r"
  shows "\<forall>K. heap_inv h K \<longrightarrow> block \<in> set (leaves 16 (bsize \<circ> mem h) (h_start h) K) \<longrightarrow>
           (case r of Inl h1 \<Rightarrow> grow_post h K 0 h1
                    | Inr (b, h1) \<Rightarrow> b \<noteq> 0 \<and> grow_post h K b h1)"
proof (rule balloc_search.raw_induct[where P = "\<lambda>sz h block r.
         \<forall>K. heap_inv h K \<longrightarrow> block \<in> set (leaves 16 (bsize \<circ> mem h) (h_start h) K) \<longrightarrow>
           (case r of Inl h1 \<Rightarrow> grow_post h K 0 h1
                    | Inr (b, h1) \<Rightarrow> b \<noteq> 0 \<and> grow_post h K b h1)", OF _ assms])
  fix g :: "nat \<Rightarrow> heap \<Rightarrow> nat \<Rightarrow> (heap + nat \<times> heap) option" and sz h block r
  assume IH: "\<And>sz h block r. g sz h block = Some r \<Longrightarrow>
         \<forall>K. heap_inv h K \<longrightarrow> block \<in> set (leaves 16 (bsize \<circ> mem h) (h_start h) K) \<longrightarrow>
           (case r of Inl h1 \<Rightarrow> grow_post h K 0 h1
                    | Inr (b, h1) \<Rightarrow> b \<noteq> 0 \<and> grow_post h K b h1)"
    and eq: "(if MEMSIZE (mem h) block < sz \<or> used (mem h block) then
        let block1 = NEXT (mem h) block;
            block2 = (if block1 = h_end h then h_start h else block1)
        in if block2 = h_next h then
             (case grow sz h of
                None \<Rightarrow> None
              | Some (b, h1) \<Rightarrow> if b = BNULL then Some (Inl h1) else Some (Inr (b, h1)))
           else g sz h block2
      else Some (Inr (block, h))) = Some r"
  show "\<forall>K. heap_inv h K \<longrightarrow> block \<in> set (leaves 16 (bsize \<circ> mem h) (h_start h) K) \<longrightarrow>
           (case r of Inl h1 \<Rightarrow> grow_post h K 0 h1
                    | Inr (b, h1) \<Rightarrow> b \<noteq> 0 \<and> grow_post h K b h1)"
  proof (intro allI impI)
    fix K assume inv: "heap_inv h K"
      and lf: "block \<in> set (leaves 16 (bsize \<circ> mem h) (h_start h) K)"
    from inv have ok: "buddy_ok 16 (bsize \<circ> mem h) (h_start h) K"
      and en: "h_end h = h_start h + 16 * 2 ^ K" by (simp_all add: heap_inv_def)
    show "case r of Inl h1 \<Rightarrow> grow_post h K 0 h1
                  | Inr (b, h1) \<Rightarrow> b \<noteq> 0 \<and> grow_post h K b h1"
    proof (cases "MEMSIZE (mem h) block < sz \<or> used (mem h block)")
      case False
      with eq have r: "r = Inr (block, h)" by simp
      from False have nu: "\<not> used (mem h block)" by simp
      from leaf_pos[OF inv lf] have b0: "block \<noteq> 0" by simp
      have "grow_post h K block h" unfolding grow_post_def
        using heap_ext_refl[OF inv] lf nu b0 by (intro exI[of _ K]) simp
      with b0 show ?thesis by (simp add: r)
    next
      case True
      define block2 where
        "block2 = (if NEXT (mem h) block = h_end h then h_start h else NEXT (mem h) block)"
      show ?thesis
      proof (cases "block2 = h_next h")
        case nx: True
        with True eq obtain b h1 where gr: "grow sz h = Some (b, h1)"
          and r: "r = (if b = 0 then Inl h1 else Inr (b, h1))"
          by (cases "grow sz h") (auto simp: Let_def block2_def[symmetric] split: if_splits)
        from grow_spec[OF gr inv] have "grow_post h K b h1" by simp
        then show ?thesis by (cases "b = 0") (simp_all add: r)
      next
        case False
        with True eq have "g sz h block2 = Some r" by (simp add: Let_def block2_def[symmetric])
        moreover have "block2 \<in> set (leaves 16 (bsize \<circ> mem h) (h_start h) K)"
        proof (cases "NEXT (mem h) block = h_end h")
          case True
          then show ?thesis by (simp add: block2_def first_leaf)
        next
          case False
          from next_leaf[OF _ ok lf] False show ?thesis
            by (simp add: block2_def NEXT_def en)
        qed
        ultimately show ?thesis using IH inv by blast
      qed
    qed
  qed
qed

lemma split_sizes:
  assumes "bsize (m block) = 16 * 2 ^ Suc j"
  shows "bsize \<circ> split block m = (bsize \<circ> m)(block := 16 * 2 ^ j, block + 16 * 2 ^ j := 16 * 2 ^ j)"
  using assms by (auto simp: split_def Let_def NEXT_def fun_eq_iff)

lemma split_step:
  assumes ok: "buddy_ok 16 (bsize \<circ> m) a K"
    and lf: "block \<in> set (leaves 16 (bsize \<circ> m) a K)" and big: "16 < bsize (m block)"
  shows "\<exists>j. bsize (m block) = 16 * 2 ^ Suc j \<and> bsize (split block m block) = 16 * 2 ^ j \<and>
           buddy_ok 16 (bsize \<circ> split block m) a K \<and>
           set (leaves 16 (bsize \<circ> split block m) a K) =
             insert (block + 16 * 2 ^ j) (set (leaves 16 (bsize \<circ> m) a K))"
proof -
  from leaf_props[OF _ ok lf] obtain i where i: "bsize (m block) = 16 * 2 ^ i" by auto
  with big have "i \<noteq> 0" by (cases i) simp_all
  then obtain j where j: "i = Suc j" by (cases i) simp_all
  have s: "(bsize \<circ> m) block = 16 * 2 ^ Suc j" using i j by simp
  note ss = split_sizes[where m=m and block=block and j=j, OF i[unfolded j]]
  have u: "0 < (16::nat)" by simp
  from split_ok[OF u ok lf s] have
    "buddy_ok 16 (bsize \<circ> split block m) a K \<and>
     set (leaves 16 (bsize \<circ> split block m) a K) =
       insert (block + 16 * 2 ^ j) (set (leaves 16 (bsize \<circ> m) a K))"
    unfolding ss .
  moreover have "bsize (split block m block) = 16 * 2 ^ j"
    using fun_cong[OF ss, of block] by simp
  ultimately show ?thesis using i j by blast
qed

lemma balloc_split_spec:
  assumes "balloc_split sz block m = Some m'"
  shows "\<forall>K. buddy_ok 16 (bsize \<circ> m) a K \<longrightarrow> block \<in> set (leaves 16 (bsize \<circ> m) a K) \<longrightarrow>
           buddy_ok 16 (bsize \<circ> m') a K \<and>
           set (leaves 16 (bsize \<circ> m) a K) \<subseteq> set (leaves 16 (bsize \<circ> m') a K)"
proof (rule balloc_split.raw_induct[where P = "\<lambda>sz block m m'.
         \<forall>K. buddy_ok 16 (bsize \<circ> m) a K \<longrightarrow> block \<in> set (leaves 16 (bsize \<circ> m) a K) \<longrightarrow>
           buddy_ok 16 (bsize \<circ> m') a K \<and>
           set (leaves 16 (bsize \<circ> m) a K) \<subseteq> set (leaves 16 (bsize \<circ> m') a K)", OF _ assms])
  fix g :: "nat \<Rightarrow> nat \<Rightarrow> (nat \<Rightarrow> block) \<Rightarrow> (nat \<Rightarrow> block) option" and sz block m m'
  assume IH: "\<And>sz block m m'. g sz block m = Some m' \<Longrightarrow>
         \<forall>K. buddy_ok 16 (bsize \<circ> m) a K \<longrightarrow> block \<in> set (leaves 16 (bsize \<circ> m) a K) \<longrightarrow>
           buddy_ok 16 (bsize \<circ> m') a K \<and>
           set (leaves 16 (bsize \<circ> m) a K) \<subseteq> set (leaves 16 (bsize \<circ> m') a K)"
    and eq: "(if HALFMEMSIZE m block \<ge> sz \<and> bsize (m block) > MINBLOCKSIZE
      then g sz block (split block m)
      else Some m) = Some m'"
  show "\<forall>K. buddy_ok 16 (bsize \<circ> m) a K \<longrightarrow> block \<in> set (leaves 16 (bsize \<circ> m) a K) \<longrightarrow>
           buddy_ok 16 (bsize \<circ> m') a K \<and>
           set (leaves 16 (bsize \<circ> m) a K) \<subseteq> set (leaves 16 (bsize \<circ> m') a K)"
  proof (intro allI impI)
    fix K assume ok: "buddy_ok 16 (bsize \<circ> m) a K"
      and lf: "block \<in> set (leaves 16 (bsize \<circ> m) a K)"
    show "buddy_ok 16 (bsize \<circ> m') a K \<and>
           set (leaves 16 (bsize \<circ> m) a K) \<subseteq> set (leaves 16 (bsize \<circ> m') a K)"
    proof (cases "HALFMEMSIZE m block \<ge> sz \<and> bsize (m block) > 16")
      case False
      with eq have "m' = m" by simp
      with ok show ?thesis by simp
    next
      case True
      with eq have rec: "g sz block (split block m) = Some m'" by simp
      from True have big: "16 < bsize (m block)" by simp
      from split_step[OF ok lf big] obtain j where
        st: "buddy_ok 16 (bsize \<circ> split block m) a K"
            "set (leaves 16 (bsize \<circ> split block m) a K) =
               insert (block + 16 * 2 ^ j) (set (leaves 16 (bsize \<circ> m) a K))" by blast
      from st(2) lf have lf2: "block \<in> set (leaves 16 (bsize \<circ> split block m) a K)" by simp
      from IH[OF rec] st(1) lf2 have
        r: "buddy_ok 16 (bsize \<circ> m') a K"
           "set (leaves 16 (bsize \<circ> split block m) a K) \<subseteq> set (leaves 16 (bsize \<circ> m') a K)"
        by simp_all
      from r(2) st(2) have "set (leaves 16 (bsize \<circ> m) a K) \<subseteq> set (leaves 16 (bsize \<circ> m') a K)"
        by (simp only: insert_subset) 
      with r(1) show ?thesis by simp
    qed
  qed
qed

lemma heap_inv_cong:
  "h_start h' = h_start h \<Longrightarrow> h_end h' = h_end h \<Longrightarrow> brk h' = brk h \<Longrightarrow>
   brk_max h' = brk_max h \<Longrightarrow> bsize \<circ> mem h' = bsize \<circ> mem h \<Longrightarrow>
   heap_inv h' K = heap_inv h K"
  by (simp add: heap_inv_def)

lemma heap_inv_lock: "heap_inv (pthread_mutex_lock h) K = heap_inv h K"
  by (rule heap_inv_cong) (simp_all add: pthread_mutex_lock_def)

lemma heap_inv_unlock: "heap_inv (pthread_mutex_unlock h) K = heap_inv h K"
  by (rule heap_inv_cong) (simp_all add: pthread_mutex_unlock_def)

lemma used_sizes: "bsize \<circ> m(b := (m b)\<lparr>used := u\<rparr>) = bsize \<circ> m"
  by (simp add: fun_eq_iff)

text \<open>
  What \<open>balloc\<close> guarantees for the pointer \<open>p\<close> and the state \<open>h'\<close> it returns, from a
  state \<open>h\<close> with a region of order \<open>K\<close>.
\<close>

lemma balloc_body_spec:
  assumes b: "balloc_body sz h0 = Some (p, h')" and inv0: "heap_inv h0 K"
    and cur0: "cursor_ok h0 K"
  shows "\<exists>K'. K \<le> K' \<and> heap_inv h' K' \<and> cursor_ok h' K' \<and> h_start h' = h_start h0 \<and>
           Buddy_Is_Init h' = Buddy_Is_Init h0 \<and>
           set (leaves 16 (bsize \<circ> mem h0) (h_start h0) K) \<subseteq>
             set (leaves 16 (bsize \<circ> mem h') (h_start h0) K') \<and>
           (p = 0 \<longrightarrow> (\<forall>x<h_end h0. mem h' x = mem h0 x))"
proof -
  define h where "h = pthread_mutex_lock h0"
  have inv: "heap_inv h K" using inv0 by (simp add: h_def heap_inv_lock)
  have hs: "h_start h = h_start h0" "mem h = mem h0" "h_next h = h_next h0" "h_end h = h_end h0"
    "Buddy_Is_Init h = Buddy_Is_Init h0"
    by (simp_all add: h_def pthread_mutex_lock_def)
  have cur: "h_next h \<in> set (leaves 16 (bsize \<circ> mem h) (h_start h) K)"
    using cur0 by (simp add: cursor_ok_def hs)
  from b obtain r where sr: "balloc_search sz h (h_next h) = Some r"
    by (cases "balloc_search sz h (h_next h)") (simp_all add: balloc_body_def Let_def h_def)
  from balloc_search_spec[OF sr] inv cur have
    post: "case r of Inl h1 \<Rightarrow> grow_post h K 0 h1 | Inr (b, h1) \<Rightarrow> b \<noteq> 0 \<and> grow_post h K b h1"
    by blast
  show ?thesis
  proof (cases r)
    case (Inl h1)
    with b sr have res: "p = 0" "h' = pthread_mutex_unlock h1"
      by (simp_all add: balloc_body_def Let_def h_def)
    from post Inl obtain K' where ext: "heap_ext h K h1 K'"
      and fr: "\<forall>x<h_end h. mem h1 x = mem h x" unfolding grow_post_def by auto
    have u: "h_start h' = h_start h1" "mem h' = mem h1" "h_next h' = h_next h1"
        "Buddy_Is_Init h' = Buddy_Is_Init h1"
      by (simp_all add: res pthread_mutex_unlock_def)
    from ext have e: "K \<le> K'" "heap_inv h1 K'" "h_start h1 = h_start h" "h_next h1 = h_next h"
      "Buddy_Is_Init h1 = Buddy_Is_Init h"
      "set (leaves 16 (bsize \<circ> mem h) (h_start h) K) \<subseteq>
         set (leaves 16 (bsize \<circ> mem h1) (h_start h) K')"
      by (simp_all add: heap_ext_def)
    have c: "cursor_ok h' K'" unfolding cursor_ok_def u e(3,4) using cur e(6) by blast
    have i: "heap_inv h' K'" using e(2) by (simp add: res heap_inv_unlock)
    show ?thesis
      using e(1) i c e(6) fr unfolding u e(3,5) hs res(1) by (intro exI[of _ K']) simp
  next
    case (Inr bh)
    obtain block h1 where bh: "bh = (block, h1)" by (cases bh)
    from post Inr bh have b0: "block \<noteq> 0" and gp: "grow_post h K block h1" by simp_all
    from gp b0 obtain K' where ext: "heap_ext h K h1 K'"
      and lf: "block \<in> set (leaves 16 (bsize \<circ> mem h1) (h_start h) K')"
      unfolding grow_post_def by auto
    from ext have e: "K \<le> K'" "heap_inv h1 K'" "h_start h1 = h_start h"
      "Buddy_Is_Init h1 = Buddy_Is_Init h"
      "set (leaves 16 (bsize \<circ> mem h) (h_start h) K) \<subseteq>
         set (leaves 16 (bsize \<circ> mem h1) (h_start h) K')"
      by (simp_all add: heap_ext_def)
    from e(2) have ok1: "buddy_ok 16 (bsize \<circ> mem h1) (h_start h) K'"
      and en1: "h_end h1 = h_start h + 16 * 2 ^ K'" by (simp_all add: heap_inv_def e(3))
    from b sr Inr bh obtain m2 where sp: "balloc_split sz block (mem h1) = Some m2"
      by (cases "balloc_split sz block (mem h1)") (simp_all add: balloc_body_def Let_def h_def)
    from balloc_split_spec[OF sp, of "h_start h"] ok1 lf have
      ok2: "buddy_ok 16 (bsize \<circ> m2) (h_start h) K'"
      and sub2: "set (leaves 16 (bsize \<circ> mem h1) (h_start h) K') \<subseteq>
                 set (leaves 16 (bsize \<circ> m2) (h_start h) K')" by simp_all
    define nxt where "nxt = (if NEXT m2 block = h_end h1 then h_start h1 else NEXT m2 block)"
    define m3 where "m3 = m2(block := (m2 block)\<lparr>used := True\<rparr>)"
    from b sr Inr bh sp have res: "p = block + 16"
      "h' = pthread_mutex_unlock (h1\<lparr>mem := m3, h_next := nxt\<rparr>)"
      by (simp_all add: balloc_body_def Let_def h_def nxt_def m3_def)
    have s3: "bsize \<circ> m3 = bsize \<circ> m2" unfolding m3_def by (rule used_sizes)
    have u: "h_start h' = h_start h" "mem h' = m3" "h_next h' = nxt"
        "Buddy_Is_Init h' = Buddy_Is_Init h"
      by (simp_all add: res pthread_mutex_unlock_def e)
    have i: "heap_inv h' K'" unfolding res heap_inv_unlock
      by (rule heap_inv_mem_upd[OF e(2)]) (simp add: s3 e(3) ok2)
    have lf2: "block \<in> set (leaves 16 (bsize \<circ> m2) (h_start h) K')" using lf sub2 by blast
    have "nxt \<in> set (leaves 16 (bsize \<circ> m2) (h_start h) K')"
    proof (cases "NEXT m2 block = h_end h1")
      case True
      then show ?thesis by (simp add: nxt_def e(3) first_leaf)
    next
      case False
      from next_leaf[OF _ ok2 lf2] False show ?thesis by (simp add: nxt_def NEXT_def en1)
    qed
    then have c: "cursor_ok h' K'" by (simp add: cursor_ok_def u s3)
    have sub: "set (leaves 16 (bsize \<circ> mem h0) (h_start h0) K) \<subseteq>
             set (leaves 16 (bsize \<circ> mem h') (h_start h0) K')"
      using e(5) sub2 by (simp add: u s3 hs)
    show ?thesis
      using e(1) i c sub b0 unfolding u hs res(1) by (intro exI[of _ K']) simp
  qed
qed

lemma balloc_spec:
  assumes b: "balloc v sz h = Some (p, h')" and inv: "heap_inv h K"
    and cur: "cursor_ok h K" and ini: "v = Lazy \<longrightarrow> Buddy_Is_Init h"
  shows "\<exists>K'. K \<le> K' \<and> heap_inv h' K' \<and> cursor_ok h' K' \<and> h_start h' = h_start h \<and>
           Buddy_Is_Init h' = Buddy_Is_Init h \<and>
           set (leaves 16 (bsize \<circ> mem h) (h_start h) K) \<subseteq>
             set (leaves 16 (bsize \<circ> mem h') (h_start h) K') \<and>
           (p = 0 \<longrightarrow> (\<forall>x<h_end h. mem h' x = mem h x))"
proof (cases "v = Lazy \<and> sz = 0")
  case True
  with b ini have "p = 0" "h' = h" by (simp_all add: balloc_def)
  with inv cur show ?thesis by (intro exI[of _ K]) simp
next
  case False
  with b ini have "balloc_body sz h = Some (p, h')"
    by (cases v) (simp_all add: balloc_def)
  from balloc_body_spec[OF this inv cur] show ?thesis .
qed

section \<open>Reallocation\<close>

lemma wrap_sub16: "16 \<le> x \<Longrightarrow> x < W \<Longrightarrow> (x + W - 16) mod W = x - 16"
proof -
  assume a: "16 \<le> x" "x < W"
  then have "x + W - 16 = (x - 16) + W" by simp
  then have "(x + W - 16) mod W = (x - 16) mod W" by (simp only: mod_add_self2)
  with a show ?thesis by simp
qed

lemma brealloc_shrink_spec:
  assumes "brealloc_shrink sz block m = Some m'"
  shows "\<forall>K. 0 < sz \<longrightarrow> a + 16 * 2 ^ K < W \<longrightarrow> buddy_ok 16 (bsize \<circ> m) a K \<longrightarrow>
           block \<in> set (leaves 16 (bsize \<circ> m) a K) \<longrightarrow> 32 \<le> bsize (m block) \<longrightarrow>
           buddy_ok 16 (bsize \<circ> m') a K \<and> block \<in> set (leaves 16 (bsize \<circ> m') a K)"
proof (rule brealloc_shrink.raw_induct[where P = "\<lambda>sz block m m'.
         \<forall>K. 0 < sz \<longrightarrow> a + 16 * 2 ^ K < W \<longrightarrow> buddy_ok 16 (bsize \<circ> m) a K \<longrightarrow>
           block \<in> set (leaves 16 (bsize \<circ> m) a K) \<longrightarrow> 32 \<le> bsize (m block) \<longrightarrow>
           buddy_ok 16 (bsize \<circ> m') a K \<and> block \<in> set (leaves 16 (bsize \<circ> m') a K)",
       OF _ assms])
  fix g :: "nat \<Rightarrow> nat \<Rightarrow> (nat \<Rightarrow> block) \<Rightarrow> (nat \<Rightarrow> block) option" and sz block m m'
  assume IH: "\<And>sz block m m'. g sz block m = Some m' \<Longrightarrow>
         \<forall>K. 0 < sz \<longrightarrow> a + 16 * 2 ^ K < W \<longrightarrow> buddy_ok 16 (bsize \<circ> m) a K \<longrightarrow>
           block \<in> set (leaves 16 (bsize \<circ> m) a K) \<longrightarrow> 32 \<le> bsize (m block) \<longrightarrow>
           buddy_ok 16 (bsize \<circ> m') a K \<and> block \<in> set (leaves 16 (bsize \<circ> m') a K)"
    and eq: "(if (bsize (m block) div 2 + W - MEMOFFSET) mod W \<ge> sz
      then g sz block (split block m)
      else Some m) = Some m'"
  show "\<forall>K. 0 < sz \<longrightarrow> a + 16 * 2 ^ K < W \<longrightarrow> buddy_ok 16 (bsize \<circ> m) a K \<longrightarrow>
           block \<in> set (leaves 16 (bsize \<circ> m) a K) \<longrightarrow> 32 \<le> bsize (m block) \<longrightarrow>
           buddy_ok 16 (bsize \<circ> m') a K \<and> block \<in> set (leaves 16 (bsize \<circ> m') a K)"
  proof (intro allI impI)
    fix K assume sz: "0 < sz" and aW: "a + 16 * 2 ^ K < W"
      and ok: "buddy_ok 16 (bsize \<circ> m) a K"
      and lf: "block \<in> set (leaves 16 (bsize \<circ> m) a K)" and big: "32 \<le> bsize (m block)"
    show "buddy_ok 16 (bsize \<circ> m') a K \<and> block \<in> set (leaves 16 (bsize \<circ> m') a K)"
    proof (cases "(bsize (m block) div 2 + W - 16) mod W \<ge> sz")
      case False
      with eq have "m' = m" by simp
      with ok lf show ?thesis by simp
    next
      case True
      with eq have rec: "g sz block (split block m) = Some m'" by simp
      from big have big': "16 < bsize (m block)" by simp
      from split_step[OF ok lf big'] obtain j where
        st: "bsize (m block) = 16 * 2 ^ Suc j" "bsize (split block m block) = 16 * 2 ^ j"
            "buddy_ok 16 (bsize \<circ> split block m) a K"
            "set (leaves 16 (bsize \<circ> split block m) a K) =
               insert (block + 16 * 2 ^ j) (set (leaves 16 (bsize \<circ> m) a K))" by blast
      from st(4) lf have lf2: "block \<in> set (leaves 16 (bsize \<circ> split block m) a K)" by simp
      from leaf_props[OF _ ok lf] have "block + bsize (m block) \<le> a + 16 * 2 ^ K" by auto
      with aW st(1) have lW: "(16::nat) * 2 ^ j < W" by simp
      have hf: "bsize (m block) div 2 = 16 * 2 ^ j" by (simp add: st(1))
      have "(16::nat) \<le> 16 * 2 ^ j" by simp
      from wrap_sub16[OF this lW] True sz have "0 < (16::nat) * 2 ^ j - 16" by (simp add: hf)
      then have "j \<noteq> 0" by (cases j) simp_all
      then obtain n where "j = Suc n" by (cases j) simp_all
      then have "32 \<le> bsize (split block m block)" by (simp add: st(2))
      with IH[OF rec] sz aW st(3) lf2 show ?thesis by blast
    qed
  qed
qed

lemma brealloc_absorb_spec:
  assumes "brealloc_absorb sz h b bs = Some r"
  shows "\<forall>j K \<sigma>. 0 < h_start h \<longrightarrow> h_end h = h_start h + 16 * 2 ^ K \<longrightarrow> h_end h < 2 ^ 63 \<longrightarrow>
           (\<forall>x. bsize (mem h x) = \<sigma> x) \<longrightarrow> bs = 16 * 2 ^ j \<longrightarrow>
           buddy_ok 16 (\<sigma>(b := 16 * 2 ^ j)) (h_start h) K \<longrightarrow>
           b \<in> set (leaves 16 (\<sigma>(b := 16 * 2 ^ j)) (h_start h) K) \<longrightarrow>
           (\<forall>bs'. r = Some bs' \<longrightarrow>
              (\<exists>j'. bs' = 16 * 2 ^ j' \<and> buddy_ok 16 (\<sigma>(b := 16 * 2 ^ j')) (h_start h) K \<and>
                    b \<in> set (leaves 16 (\<sigma>(b := 16 * 2 ^ j')) (h_start h) K)))"
proof (rule brealloc_absorb.raw_induct[where P = "\<lambda>sz h b bs r.
         \<forall>j K \<sigma>. 0 < h_start h \<longrightarrow> h_end h = h_start h + 16 * 2 ^ K \<longrightarrow> h_end h < 2 ^ 63 \<longrightarrow>
           (\<forall>x. bsize (mem h x) = \<sigma> x) \<longrightarrow> bs = 16 * 2 ^ j \<longrightarrow>
           buddy_ok 16 (\<sigma>(b := 16 * 2 ^ j)) (h_start h) K \<longrightarrow>
           b \<in> set (leaves 16 (\<sigma>(b := 16 * 2 ^ j)) (h_start h) K) \<longrightarrow>
           (\<forall>bs'. r = Some bs' \<longrightarrow>
              (\<exists>j'. bs' = 16 * 2 ^ j' \<and> buddy_ok 16 (\<sigma>(b := 16 * 2 ^ j')) (h_start h) K \<and>
                    b \<in> set (leaves 16 (\<sigma>(b := 16 * 2 ^ j')) (h_start h) K)))", OF _ assms])
  fix g :: "nat \<Rightarrow> heap \<Rightarrow> nat \<Rightarrow> nat \<Rightarrow> nat option option" and sz h b bs r
  assume IH: "\<And>sz h b bs r. g sz h b bs = Some r \<Longrightarrow>
         \<forall>j K \<sigma>. 0 < h_start h \<longrightarrow> h_end h = h_start h + 16 * 2 ^ K \<longrightarrow> h_end h < 2 ^ 63 \<longrightarrow>
           (\<forall>x. bsize (mem h x) = \<sigma> x) \<longrightarrow> bs = 16 * 2 ^ j \<longrightarrow>
           buddy_ok 16 (\<sigma>(b := 16 * 2 ^ j)) (h_start h) K \<longrightarrow>
           b \<in> set (leaves 16 (\<sigma>(b := 16 * 2 ^ j)) (h_start h) K) \<longrightarrow>
           (\<forall>bs'. r = Some bs' \<longrightarrow>
              (\<exists>j'. bs' = 16 * 2 ^ j' \<and> buddy_ok 16 (\<sigma>(b := 16 * 2 ^ j')) (h_start h) K \<and>
                    b \<in> set (leaves 16 (\<sigma>(b := 16 * 2 ^ j')) (h_start h) K)))"
    and eq: "(if bs \<ge> BLOCKSIZE sz then Some (Some bs)
      else if (bs * 2) mod W = 0 then None
      else
        let buddy = b + bs in
        if BYTEDIFF (h_start h) b mod ((bs * 2) mod W) > 0 \<or>
           buddy = h_end h \<or> bsize (mem h buddy) \<noteq> bs \<or> used (mem h buddy)
        then Some None
        else g sz h b ((bs * 2) mod W)) = Some r"
  show "\<forall>j K \<sigma>. 0 < h_start h \<longrightarrow> h_end h = h_start h + 16 * 2 ^ K \<longrightarrow> h_end h < 2 ^ 63 \<longrightarrow>
           (\<forall>x. bsize (mem h x) = \<sigma> x) \<longrightarrow> bs = 16 * 2 ^ j \<longrightarrow>
           buddy_ok 16 (\<sigma>(b := 16 * 2 ^ j)) (h_start h) K \<longrightarrow>
           b \<in> set (leaves 16 (\<sigma>(b := 16 * 2 ^ j)) (h_start h) K) \<longrightarrow>
           (\<forall>bs'. r = Some bs' \<longrightarrow>
              (\<exists>j'. bs' = 16 * 2 ^ j' \<and> buddy_ok 16 (\<sigma>(b := 16 * 2 ^ j')) (h_start h) K \<and>
                    b \<in> set (leaves 16 (\<sigma>(b := 16 * 2 ^ j')) (h_start h) K)))"
  proof (intro allI impI)
    fix j K \<sigma> bs'
    assume st: "0 < h_start h" and en: "h_end h = h_start h + 16 * 2 ^ K"
      and lt: "h_end h < 2 ^ 63" and sg: "\<forall>x. bsize (mem h x) = \<sigma> x" and bs: "bs = 16 * 2 ^ j"
      and ok: "buddy_ok 16 (\<sigma>(b := 16 * 2 ^ j)) (h_start h) K"
      and lf: "b \<in> set (leaves 16 (\<sigma>(b := 16 * 2 ^ j)) (h_start h) K)"
      and r: "r = Some bs'"
    let ?\<tau> = "\<sigma>(b := 16 * 2 ^ j)"
    have u: "0 < (16::nat)" by simp
    have tb: "?\<tau> b = 16 * 2 ^ j" by simp
    show "\<exists>j'. bs' = 16 * 2 ^ j' \<and> buddy_ok 16 (\<sigma>(b := 16 * 2 ^ j')) (h_start h) K \<and>
                    b \<in> set (leaves 16 (\<sigma>(b := 16 * 2 ^ j')) (h_start h) K)"
    proof (cases "bs \<ge> BLOCKSIZE sz")
      case True
      with eq r have "bs' = bs" by simp
      with ok lf bs show ?thesis by blast
    next
      case nb: False
      show ?thesis
      proof (cases "(bs * 2) mod W = 0")
        case True
        with nb eq show ?thesis by simp
      next
        case nz: False
        from leaf_props[OF u ok lf] obtain j' where
          j': "?\<tau> b = 16 * 2 ^ j'" "b + 16 * 2 ^ j' \<le> h_start h + 16 * 2 ^ K" by blast
        from j'(1) have "16 * 2 ^ j' = bs" by (simp add: bs)
        with j'(2) have bnd: "b + bs \<le> h_end h" using en by simp
        from leaves_bounds[OF u lf] have sb: "h_start h \<le> b" by simp
        have pos: "0 < bs" by (simp add: bs)
        have bW: "b < W" using bnd lt by simp
        have s63: "bs < 2 ^ 63" using bnd lt by simp
        have m2: "(bs * 2) mod W = bs * 2" using s63 by simp
        have bd: "BYTEDIFF (h_start h) b = b - h_start h" by (rule BYTEDIFF_sub[OF sb bW])
        have e2: "bs * 2 = 16 * 2 ^ Suc j" by (simp add: bs)
        show ?thesis
        proof (cases "(b - h_start h) mod (bs * 2) > 0 \<or>
           b + bs = h_end h \<or> bsize (mem h (b + bs)) \<noteq> bs \<or> used (mem h (b + bs))")
          case True
          with nb nz eq have "r = None" by (simp add: Let_def m2 bd)
          with r show ?thesis by simp
        next
          case False
          with nb nz eq have "g sz h b (bs * 2) = Some r"
            by (simp add: Let_def m2 bd)
          then have rec: "g sz h b (16 * 2 ^ Suc j) = Some r" by (simp only: e2)
          from False have "(b - h_start h) mod (bs * 2) = 0" by simp
          then have "bs * 2 dvd (b - h_start h)"
            using mod_eq_0_iff_dvd[of "b - h_start h" "bs * 2"] by blast
          then have dv2: "16 * 2 ^ Suc j dvd (b - h_start h)" by (simp only: e2)
          have ne: "b + 16 * 2 ^ j \<noteq> h_start h + 16 * 2 ^ K" using False en by (simp add: bs)
          have "b + bs \<noteq> b" using pos by simp
          then have sbud: "?\<tau> (b + 16 * 2 ^ j) = 16 * 2 ^ j"
            using False sg by (simp add: bs)
          from merge_left_ok[OF u ok lf tb dv2 ne sbud] have
            ok': "buddy_ok 16 (\<sigma>(b := 16 * 2 ^ Suc j)) (h_start h) K"
            and lf': "b \<in> set (leaves 16 (\<sigma>(b := 16 * 2 ^ Suc j)) (h_start h) K)"
            by (simp_all only: fun_upd_upd)
          have refl: "(16::nat) * 2 ^ Suc j = 16 * 2 ^ Suc j" ..
          have sg': "\<And>x. bsize (mem h x) = \<sigma> x" using sg by simp
          from IH[OF rec, rule_format, OF st en lt sg' refl ok' lf' r] show ?thesis .
        qed
      qed
    qed
  qed
qed

text \<open>
  Writing the old size back at \<open>block\<close> after the block was merged into the block at \<open>b\<close>
  of order \<open>j\<close>, and the region grew from order \<open>K\<close> to order \<open>K'\<close> in between.
\<close>

lemma restore_ok:
  assumes u: "0 < u" and ok: "buddy_ok u \<sigma> a K" and lfb: "block \<in> set (leaves u \<sigma> a K)"
    and ok1: "buddy_ok u (\<sigma>(b := u * 2 ^ j)) a K"
    and lf1: "b \<in> set (leaves u (\<sigma>(b := u * 2 ^ j)) a K)"
    and ble: "b \<le> block" and cover: "block + \<sigma> block \<le> b + u * 2 ^ j"
    and KK: "K \<le> K'" and ok2: "buddy_ok u \<sigma>2 a K'"
    and agree: "\<And>x. x < a + u * 2 ^ K \<Longrightarrow> \<sigma>2 x = (\<sigma>(b := u * 2 ^ j)) x"
    and sub: "set (leaves u (\<sigma>(b := u * 2 ^ j)) a K) \<subseteq> set (leaves u \<sigma>2 a K')"
  shows "buddy_ok u (\<sigma>2(block := \<sigma> block)) a K'"
proof (cases "b = block")
  case True
  from leaves_bounds[OF u lfb] have bb: "a \<le> block" "block < a + u * 2 ^ K" by simp_all
  have a1: "\<sigma>2 x = (\<sigma>(b := u * 2 ^ j)) x" if "a \<le> x" "x < a + u * 2 ^ K" for x
    using agree that by blast
  from leaves_cong[of a u K \<sigma>2 "\<sigma>(b := u * 2 ^ j)", OF a1 u] ok1
  have ok2K: "buddy_ok u \<sigma>2 a K" by blast
  have a2: "(\<sigma>2(block := \<sigma> block)) x = \<sigma> x" if "a \<le> x" "x < a + u * 2 ^ K" for x
  proof (cases "x = block")
    case True
    then show ?thesis by simp
  next
    case False
    with agree[OF that(2)] \<open>b = block\<close> show ?thesis by simp
  qed
  from leaves_cong[of a u K "\<sigma>2(block := \<sigma> block)" \<sigma>, OF a2 u] ok
  have ok2'K: "buddy_ok u (\<sigma>2(block := \<sigma> block)) a K" by blast
  have a3: "(\<sigma>2(block := \<sigma> block)) x = \<sigma>2 x" if "a + u * 2 ^ K \<le> x" for x
    using that bb(2) by simp
  from prefix_replace[OF u KK ok2 ok2K ok2'K a3] show ?thesis .
next
  case False
  with ble have lt: "b < block" by simp
  from lf1 sub have bl2: "b \<in> set (leaves u \<sigma>2 a K')" by blast
  from leaves_bounds[OF u lf1] have "b < a + u * 2 ^ K" by simp
  from agree[OF this] have s2b: "\<sigma>2 b = u * 2 ^ j" by simp
  from leaf_props[OF u ok lfb] obtain i where "\<sigma> block = u * 2 ^ i" by blast
  with u have pos: "0 < \<sigma> block" by simp
  have nl: "block \<notin> set (leaves u \<sigma>2 a K')"
  proof
    assume "block \<in> set (leaves u \<sigma>2 a K')"
    from leaves_disjoint[OF u ok2 bl2 this lt] have "b + \<sigma>2 b \<le> block" .
    with cover s2b pos show False by simp
  qed
  have "(\<sigma>2(block := \<sigma> block)) x = \<sigma>2 x" if "x \<in> set (leaves u \<sigma>2 a K')" for x
    using that nl by auto
  from leaves_cong_leaf[OF u ok2 this] show ?thesis by blast
qed

lemma heap_inv_frame:
  "heap_inv h K \<Longrightarrow> h_start h' = h_start h \<Longrightarrow> h_end h' = h_end h \<Longrightarrow> brk h' = brk h \<Longrightarrow>
   brk_max h' = brk_max h \<Longrightarrow> buddy_ok 16 (bsize \<circ> mem h') (h_start h) K \<Longrightarrow> heap_inv h' K"
  by (simp add: heap_inv_def)

lemma cursor_ok_cong:
  "h_start h' = h_start h \<Longrightarrow> h_next h' = h_next h \<Longrightarrow> bsize \<circ> mem h' = bsize \<circ> mem h \<Longrightarrow>
   cursor_ok h' K = cursor_ok h K"
  by (simp add: cursor_ok_def)

lemma upd_sizes: "bsize \<circ> m(b := \<lparr>bsize = s, used = f\<rparr>) = (bsize \<circ> m)(b := s)"
  by (simp add: fun_eq_iff)

lemma upd_bsize: "bsize \<circ> m(b := (m b)\<lparr>bsize := s\<rparr>) = (bsize \<circ> m)(b := s)"
  by (simp add: fun_eq_iff)

lemma brealloc_spec:
  assumes b: "brealloc v ptr sz h0 = Some (p, h')" and inv0: "heap_inv h0 K"
    and ini0: "v = Lazy \<longrightarrow> Buddy_Is_Init h0"
    and lf0: "if ptr = 0 then cursor_ok h0 K
              else BLOCK ptr \<in> set (leaves 16 (bsize \<circ> mem h0) (h_start h0) K)"
  shows "\<exists>K'. K \<le> K' \<and> heap_inv h' K'"
proof -
  define h where "h = pthread_mutex_lock h0"
  have inv: "heap_inv h K" using inv0 by (simp add: h_def heap_inv_lock)
  have hs: "h_start h = h_start h0" "mem h = mem h0" "h_next h = h_next h0" "h_end h = h_end h0"
    "Buddy_Is_Init h = Buddy_Is_Init h0" "brk h = brk h0" "brk_max h = brk_max h0"
    by (simp_all add: h_def pthread_mutex_lock_def)
  have u: "0 < (16::nat)" by simp
  from inv have ok: "buddy_ok 16 (bsize \<circ> mem h) (h_start h) K"
    and en: "h_end h = h_start h + 16 * 2 ^ K" and st: "0 < h_start h"
    by (simp_all add: heap_inv_def)
  note lt = heap_inv_lt[OF inv]
  show ?thesis
  proof (cases "ptr = 0")
    case True
    define hx where "hx = (if v = Lazy then pthread_mutex_unlock h else h)"
    from b True have bx: "balloc v sz hx = Some (p, h')"
      by (cases "v = Lazy") (simp_all add: brealloc_def Let_def h_def hx_def)
    have "heap_inv hx K" using inv by (simp add: hx_def heap_inv_unlock)
    moreover have "cursor_ok hx K" using lf0 True
      by (simp add: hx_def cursor_ok_def pthread_mutex_unlock_def hs)
    moreover have "v = Lazy \<longrightarrow> Buddy_Is_Init hx" using ini0
      by (simp add: hx_def hs pthread_mutex_unlock_def)
    ultimately show ?thesis using balloc_spec[OF bx] by blast
  next
    case nz: False
    define block where "block = BLOCK ptr"
    from nz lf0 have lf: "block \<in> set (leaves 16 (bsize \<circ> mem h) (h_start h) K)"
      by (simp add: block_def hs)
    from bfree_total[OF inv lf[unfolded block_def] nz] obtain bj jj where
      bf: "bfree ptr h =
            Some (h\<lparr>mem := (mem h)(bj := \<lparr>bsize = 16 * 2 ^ jj, used = False\<rparr>), h_next := bj\<rparr>)"
      and ok1: "buddy_ok 16 ((bsize \<circ> mem h)(bj := 16 * 2 ^ jj)) (h_start h) K"
      and lf1: "bj \<in> set (leaves 16 ((bsize \<circ> mem h)(bj := 16 * 2 ^ jj)) (h_start h) K)"
      and ble: "bj \<le> block" and cover: "block + bsize (mem h block) \<le> bj + 16 * 2 ^ jj"
      unfolding block_def by blast
    define h1 where
      "h1 = h\<lparr>mem := (mem h)(bj := \<lparr>bsize = 16 * 2 ^ jj, used = False\<rparr>), h_next := bj\<rparr>"
    have s1: "bsize \<circ> mem h1 = (bsize \<circ> mem h)(bj := 16 * 2 ^ jj)"
      by (simp add: h1_def upd_sizes)
    have inv1: "heap_inv h1 K" unfolding h1_def
      by (rule heap_inv_mem_upd[OF inv]) (simp only: upd_sizes ok1)
    show ?thesis
    proof (cases "sz = 0")
      case True
      with b nz bf have "h' = pthread_mutex_unlock h1"
        by (simp add: brealloc_def Let_def h_def[symmetric] h1_def)
      with inv1 show ?thesis by (intro exI[of _ K]) (simp add: heap_inv_unlock)
    next
      case sz: False
      from leaf_props[OF u ok lf] obtain j where
        j: "bsize (mem h block) = 16 * 2 ^ j" "block + 16 * 2 ^ j \<le> h_start h + 16 * 2 ^ K"
        by auto
      from j(2) en lt have bW: "bsize (mem h block) < W" by (simp add: j(1))
      have b16: "16 \<le> bsize (mem h block)" by (simp add: j(1))
      have ms: "MEMSIZE (mem h) block = bsize (mem h block) - 16"
        unfolding MEMSIZE_def by (rule wrap_sub16[OF b16 bW])
      show ?thesis
      proof (cases "MEMSIZE (mem h) block \<ge> sz")
        case True
        with b nz sz obtain m1 where sh: "brealloc_shrink sz block (mem h) = Some m1"
          and res: "h' = pthread_mutex_unlock (h\<lparr>mem := m1, h_next := NEXT m1 block\<rparr>)"
          by (cases "brealloc_shrink sz block (mem h)")
             (simp_all add: brealloc_def Let_def h_def[symmetric] block_def[symmetric])
        from True sz ms have "16 < bsize (mem h block)" by simp
        then have "j \<noteq> 0" by (cases j) (simp_all add: j(1))
        then obtain n where "j = Suc n" by (cases j) simp_all
        then have big: "32 \<le> bsize (mem h block)" by (simp add: j(1))
        have aW: "h_start h + 16 * 2 ^ K < W" using en lt by simp
        from brealloc_shrink_spec[OF sh, of "h_start h"] sz aW ok lf big
        have "buddy_ok 16 (bsize \<circ> m1) (h_start h) K" by simp
        from heap_inv_mem_upd[OF inv this] show ?thesis
          unfolding res heap_inv_unlock by (intro exI[of _ K]) simp
      next
        case grow: False
        from b nz sz grow obtain r where
          ab: "brealloc_absorb sz h block (bsize (mem h block)) = Some r"
          by (cases "brealloc_absorb sz h block (bsize (mem h block))")
             (simp_all add: brealloc_def Let_def h_def[symmetric] block_def[symmetric])
        show ?thesis
        proof (cases r)
          case (Some bs')
          with b nz sz grow ab have
            res: "h' = pthread_mutex_unlock
                    (h\<lparr>mem := (mem h)(block := (mem h block)\<lparr>bsize := bs'\<rparr>),
                       h_next := NEXT ((mem h)(block := (mem h block)\<lparr>bsize := bs'\<rparr>)) block\<rparr>)"
            by (simp add: brealloc_def Let_def h_def[symmetric] block_def[symmetric])
          have triv: "(bsize \<circ> mem h)(block := 16 * 2 ^ j) = bsize \<circ> mem h"
            using j(1) by (simp add: fun_eq_iff)
          have sg: "\<And>x. bsize (mem h x) = (bsize \<circ> mem h) x" by simp
          from brealloc_absorb_spec[OF ab, rule_format, OF st en lt sg j(1) _ _ Some]
            ok lf obtain j' where
            j': "bs' = 16 * 2 ^ j'"
                "buddy_ok 16 ((bsize \<circ> mem h)(block := 16 * 2 ^ j')) (h_start h) K"
            unfolding triv by blast
          have "buddy_ok 16 (bsize \<circ> (mem h)(block := (mem h block)\<lparr>bsize := bs'\<rparr>)) (h_start h) K"
            using j'(2) by (simp only: upd_bsize j'(1))
          from heap_inv_mem_upd[OF inv this] show ?thesis
            unfolding res heap_inv_unlock by (intro exI[of _ K]) simp
        next
          case None
          have cur1: "cursor_ok h1 K" unfolding cursor_ok_def s1 using lf1 by (simp add: h1_def)
          have ini1: "v = Lazy \<longrightarrow> Buddy_Is_Init h1" using ini0 by (simp add: h1_def hs)
          from b nz sz grow ab None bf obtain np h2 where
            ba: "balloc v sz h1 = Some (np, h2)"
            by (cases "balloc v sz h1")
               (auto simp: brealloc_def Let_def h_def[symmetric] block_def[symmetric]
                  h1_def[symmetric])
          from balloc_spec[OF ba inv1 cur1 ini1] obtain K' where
            k: "K \<le> K'" "heap_inv h2 K'" "h_start h2 = h_start h1"
               "set (leaves 16 (bsize \<circ> mem h1) (h_start h1) K) \<subseteq>
                  set (leaves 16 (bsize \<circ> mem h2) (h_start h1) K')"
               "np = 0 \<longrightarrow> (\<forall>x<h_end h1. mem h2 x = mem h1 x)" by blast
          have s1s: "h_start h1 = h_start h" "h_end h1 = h_end h" by (simp_all add: h1_def)
          show ?thesis
          proof (cases "np = 0")
            case False
            with b nz sz grow ab None bf ba obtain bb where
              res: "h' = pthread_mutex_unlock (h2\<lparr>bytes := bb\<rparr>)"
              by (auto simp: brealloc_def Let_def h_def[symmetric] block_def[symmetric]
                    h1_def[symmetric])
            have "heap_inv (h2\<lparr>bytes := bb\<rparr>) K' = heap_inv h2 K'"
              by (rule heap_inv_cong) simp_all
            with k(1,2) show ?thesis unfolding res heap_inv_unlock by blast
          next
            case True
            with b nz sz grow ab None bf ba have
              res: "h' = pthread_mutex_unlock
                     (h2\<lparr>mem := (mem h2)(block := \<lparr>bsize = bsize (mem h block), used = True\<rparr>)\<rparr>)"
              by (simp add: brealloc_def Let_def h_def[symmetric] block_def[symmetric]
                    h1_def[symmetric])
            from k(2) have ok2: "buddy_ok 16 (bsize \<circ> mem h2) (h_start h) K'"
              by (simp add: heap_inv_def k(3) s1s)
            have agree: "(bsize \<circ> mem h2) x = ((bsize \<circ> mem h)(bj := 16 * 2 ^ jj)) x"
              if "x < h_start h + 16 * 2 ^ K" for x
            proof -
              from that en have "x < h_end h1" by (simp add: s1s)
              with k(5) True have "mem h2 x = mem h1 x" by simp
              then show ?thesis using fun_cong[OF s1, of x] by simp
            qed
            have sub: "set (leaves 16 ((bsize \<circ> mem h)(bj := 16 * 2 ^ jj)) (h_start h) K) \<subseteq>
                       set (leaves 16 (bsize \<circ> mem h2) (h_start h) K')"
              using k(4) by (simp only: s1 s1s)
            have cov: "block + (bsize \<circ> mem h) block \<le> bj + 16 * 2 ^ jj" using cover by simp
            from restore_ok[OF u ok lf ok1 lf1 ble cov k(1) ok2 agree sub]
            have "buddy_ok 16 ((bsize \<circ> mem h2)(block := (bsize \<circ> mem h) block)) (h_start h) K'" .
            then have okr: "buddy_ok 16
               (bsize \<circ> (mem h2)(block := \<lparr>bsize = bsize (mem h block), used = True\<rparr>))
               (h_start h) K'"
              by (simp only: upd_sizes comp_apply)
            have "heap_inv
               (h2\<lparr>mem := (mem h2)(block := \<lparr>bsize = bsize (mem h block), used = True\<rparr>)\<rparr>) K'"
              by (rule heap_inv_frame[OF k(2)]) (simp_all add: okr k(3) s1s)
            with k(1) show ?thesis unfolding res heap_inv_unlock by blast
          qed
        qed
      qed
    qed
  qed
qed

section \<open>Zero-allocation and the arena\<close>

lemma bcalloc_spec:
  assumes b: "bcalloc v nitems sz0 h = Some (p, h')" and inv: "heap_inv h K"
    and cur: "cursor_ok h K" and ini: "v = Lazy \<longrightarrow> Buddy_Is_Init h"
  shows "\<exists>K'. K \<le> K' \<and> heap_inv h' K' \<and> cursor_ok h' K'"
proof -
  from b obtain q h1 where ba: "balloc v ((sz0 * nitems) mod W) h = Some (q, h1)"
    by (cases "balloc v ((sz0 * nitems) mod W) h") (auto simp: bcalloc_def Let_def)
  from balloc_spec[OF ba inv cur ini] obtain K' where
    k: "K \<le> K'" "heap_inv h1 K'" "cursor_ok h1 K'" by blast
  from b ba obtain bb where "h' = h1 \<or> h' = h1\<lparr>bytes := bb\<rparr>"
    by (auto simp: bcalloc_def Let_def split: if_splits)
  moreover have "heap_inv (h1\<lparr>bytes := bb\<rparr>) K' = heap_inv h1 K'"
    by (rule heap_inv_cong) simp_all
  moreover have "cursor_ok (h1\<lparr>bytes := bb\<rparr>) K' = cursor_ok h1 K'"
    by (rule cursor_ok_cong) simp_all
  ultimately show ?thesis using k by blast
qed

subsection \<open>The arena\<close>

lemma alloc_search_spec:
  assumes "alloc_search b m sz block = Some r"
  shows "\<forall>K x. arena_inv b m K \<longrightarrow> block \<in> set (leaves 1 (a_size \<circ> m) (start b) K) \<longrightarrow>
           r = Some x \<longrightarrow> x \<in> set (leaves 1 (a_size \<circ> m) (start b) K)"
proof (rule alloc_search.raw_induct[where P = "\<lambda>b m sz block r.
         \<forall>K x. arena_inv b m K \<longrightarrow> block \<in> set (leaves 1 (a_size \<circ> m) (start b) K) \<longrightarrow>
           r = Some x \<longrightarrow> x \<in> set (leaves 1 (a_size \<circ> m) (start b) K)", OF _ assms])
  fix g :: "buddy_t \<Rightarrow> (nat \<Rightarrow> arena_block) \<Rightarrow> nat \<Rightarrow> nat \<Rightarrow> nat option option"
    and b m sz block r
  assume IH: "\<And>b m sz block r. g b m sz block = Some r \<Longrightarrow>
         \<forall>K x. arena_inv b m K \<longrightarrow> block \<in> set (leaves 1 (a_size \<circ> m) (start b) K) \<longrightarrow>
           r = Some x \<longrightarrow> x \<in> set (leaves 1 (a_size \<circ> m) (start b) K)"
    and eq: "(if \<not> a_free (m block) \<or> MEM_SIZE (a_size (m block)) < sz then
        let block1 = get_next m block (stop b)
        in if block1 = 0 then Some None else g b m sz block1
      else Some (Some block)) = Some r"
  show "\<forall>K x. arena_inv b m K \<longrightarrow> block \<in> set (leaves 1 (a_size \<circ> m) (start b) K) \<longrightarrow>
           r = Some x \<longrightarrow> x \<in> set (leaves 1 (a_size \<circ> m) (start b) K)"
  proof (intro allI impI)
    fix K x assume inv: "arena_inv b m K"
      and lf: "block \<in> set (leaves 1 (a_size \<circ> m) (start b) K)" and r: "r = Some x"
    have u: "0 < (1::nat)" by simp
    from inv have ok: "buddy_ok 1 (a_size \<circ> m) (start b) K"
      and en: "stop b = start b + 2 ^ K" and lt: "stop b < 2 ^ 63" by (simp_all add: arena_inv_def)
    show "x \<in> set (leaves 1 (a_size \<circ> m) (start b) K)"
    proof (cases "\<not> a_free (m block) \<or> MEM_SIZE (a_size (m block)) < sz")
      case False
      with eq r have "x = block" by simp
      with lf show ?thesis by simp
    next
      case True
      from leaf_props[OF u ok lf] have bnd: "block + a_size (m block) \<le> stop b"
        by (auto simp: en)
      with lt have nw: "(block + a_size (m block)) mod W = block + a_size (m block)" by simp
      have s0: "stop b \<noteq> 0" using en by simp
      show ?thesis
      proof (cases "block + a_size (m block) \<ge> stop b")
        case ge: True
        with True eq s0 have "r = None"
          by (simp add: Let_def get_next_def BLOCK_BYTE_OFFSET_def nw)
        with r show ?thesis by simp
      next
        case False
        with True eq s0 have
          e: "(if block + a_size (m block) = 0 then Some None
               else g b m sz (block + a_size (m block))) = Some r"
          by (simp add: Let_def get_next_def BLOCK_BYTE_OFFSET_def nw)
        with r have rec: "g b m sz (block + a_size (m block)) = Some r"
          by (simp split: if_splits)
        from next_leaf[OF u ok lf] False en
        have "block + a_size (m block) \<in> set (leaves 1 (a_size \<circ> m) (start b) K)" by simp
        with IH[OF rec] inv r show ?thesis by blast
      qed
    qed
  qed
qed

lemma split_a_step:
  assumes a0: "0 < a" and aW: "a + 2 ^ K < W" and ok: "buddy_ok 1 (a_size \<circ> m) a K"
    and lf: "block \<in> set (leaves 1 (a_size \<circ> m) a K)"
    and big: "\<not> a_size (m block) div 2 < 24"
  shows "fst (split_a block m) = block \<and> block \<noteq> 0 \<and>
         buddy_ok 1 (a_size \<circ> snd (split_a block m)) a K \<and>
         block \<in> set (leaves 1 (a_size \<circ> snd (split_a block m)) a K)"
proof -
  have u: "0 < (1::nat)" by simp
  from leaf_props[OF u ok lf] obtain i where
    i: "a_size (m block) = 2 ^ i" "block + 2 ^ i \<le> a + 2 ^ K" by auto
  with big have "i \<noteq> 0" by (cases i) simp_all
  then obtain j where j: "i = Suc j" by (cases i) simp_all
  have hf: "a_size (m block) div 2 = 2 ^ j" by (simp add: i j)
  from i(2) aW have "block + 2 ^ j < W" by (simp add: j)
  then have nw: "(block + 2 ^ j) mod W = block + 2 ^ j" by simp
  from leaves_bounds[OF u lf] a0 have b0: "block \<noteq> 0" by simp
  have sp: "split_a block m =
     (block, (m(block := (m block)\<lparr>a_size := 2 ^ j\<rparr>))
               (block + 2 ^ j := \<lparr>a_size = 2 ^ j, a_free = True\<rparr>))"
    using big by (simp add: split_a_def Let_def get_next_def BLOCK_BYTE_OFFSET_def hf nw)
  have ss: "a_size \<circ> snd (split_a block m) =
            (a_size \<circ> m)(block := 1 * 2 ^ j, block + 1 * 2 ^ j := 1 * 2 ^ j)"
    unfolding sp by (simp add: fun_eq_iff)
  have s: "(a_size \<circ> m) block = 1 * 2 ^ Suc j" using i j by simp
  from split_ok[OF u ok lf s] have
    "buddy_ok 1 (a_size \<circ> snd (split_a block m)) a K \<and>
     set (leaves 1 (a_size \<circ> snd (split_a block m)) a K) =
       insert (block + 1 * 2 ^ j) (set (leaves 1 (a_size \<circ> m) a K))"
    unfolding ss .
  with lf b0 sp show ?thesis by simp
qed

lemma alloc_split_spec:
  assumes "alloc_split sz block m = Some y"
  shows "\<forall>K. 0 < a \<longrightarrow> a + 2 ^ K < W \<longrightarrow> buddy_ok 1 (a_size \<circ> m) a K \<longrightarrow>
           block \<in> set (leaves 1 (a_size \<circ> m) a K) \<longrightarrow>
           buddy_ok 1 (a_size \<circ> snd y) a K \<and> fst y \<in> set (leaves 1 (a_size \<circ> snd y) a K)"
proof (rule alloc_split.raw_induct[where P = "\<lambda>sz block m y.
         \<forall>K. 0 < a \<longrightarrow> a + 2 ^ K < W \<longrightarrow> buddy_ok 1 (a_size \<circ> m) a K \<longrightarrow>
           block \<in> set (leaves 1 (a_size \<circ> m) a K) \<longrightarrow>
           buddy_ok 1 (a_size \<circ> snd y) a K \<and> fst y \<in> set (leaves 1 (a_size \<circ> snd y) a K)",
       OF _ assms])
  fix g :: "nat \<Rightarrow> nat \<Rightarrow> (nat \<Rightarrow> arena_block) \<Rightarrow> (nat \<times> (nat \<Rightarrow> arena_block)) option"
    and sz block m y
  assume IH: "\<And>sz block m y. g sz block m = Some y \<Longrightarrow>
         \<forall>K. 0 < a \<longrightarrow> a + 2 ^ K < W \<longrightarrow> buddy_ok 1 (a_size \<circ> m) a K \<longrightarrow>
           block \<in> set (leaves 1 (a_size \<circ> m) a K) \<longrightarrow>
           buddy_ok 1 (a_size \<circ> snd y) a K \<and> fst y \<in> set (leaves 1 (a_size \<circ> snd y) a K)"
    and eq: "(if MEM_SIZE (a_size (m block) div 2) \<ge> sz then
        (case split_a block m of
           (new_block, m1) \<Rightarrow>
             if new_block = 0 then Some (block, m1) else g sz new_block m1)
      else Some (block, m)) = Some y"
  show "\<forall>K. 0 < a \<longrightarrow> a + 2 ^ K < W \<longrightarrow> buddy_ok 1 (a_size \<circ> m) a K \<longrightarrow>
           block \<in> set (leaves 1 (a_size \<circ> m) a K) \<longrightarrow>
           buddy_ok 1 (a_size \<circ> snd y) a K \<and> fst y \<in> set (leaves 1 (a_size \<circ> snd y) a K)"
  proof (intro allI impI)
    fix K assume a0: "0 < a" and aW: "a + 2 ^ K < W"
      and ok: "buddy_ok 1 (a_size \<circ> m) a K"
      and lf: "block \<in> set (leaves 1 (a_size \<circ> m) a K)"
    show "buddy_ok 1 (a_size \<circ> snd y) a K \<and> fst y \<in> set (leaves 1 (a_size \<circ> snd y) a K)"
    proof (cases "MEM_SIZE (a_size (m block) div 2) \<ge> sz")
      case False
      with eq have "y = (block, m)" by simp
      with ok lf show ?thesis by simp
    next
      case True
      show ?thesis
      proof (cases "a_size (m block) div 2 < 24")
        case small: True
        then have "split_a block m = (0, m)" by (simp add: split_a_def)
        with True eq have "y = (block, m)" by simp
        with ok lf show ?thesis by simp
      next
        case False
        from split_a_step[OF a0 aW ok lf False] have
          st: "fst (split_a block m) = block" "block \<noteq> 0"
              "buddy_ok 1 (a_size \<circ> snd (split_a block m)) a K"
              "block \<in> set (leaves 1 (a_size \<circ> snd (split_a block m)) a K)" by simp_all
        from True eq st(1,2) have rec: "g sz block (snd (split_a block m)) = Some y"
          by (cases "split_a block m") simp
        from IH[OF rec] a0 aW st(3,4) show ?thesis by blast
      qed
    qed
  qed
qed

lemma free_sizes: "a_size \<circ> m(b := (m b)\<lparr>a_free := f\<rparr>) = a_size \<circ> m"
  by (simp add: fun_eq_iff)

lemma buddy_alloc_spec:
  assumes b: "buddy_alloc bd sz m = Some (p, m')" and inv: "arena_inv bd m K"
  shows "arena_inv bd m' K"
proof (cases "sz = 0")
  case True
  with b inv show ?thesis by (simp add: buddy_alloc_def)
next
  case False
  with b obtain r where sr: "alloc_search bd m sz (start bd) = Some r"
    by (cases "alloc_search bd m sz (start bd)") (simp_all add: buddy_alloc_def)
  show ?thesis
  proof (cases r)
    case None
    with False b sr inv show ?thesis by (simp add: buddy_alloc_def)
  next
    case (Some block0)
    from inv have ok: "buddy_ok 1 (a_size \<circ> m) (start bd) K" and a0: "0 < start bd"
      and en: "stop bd = start bd + 2 ^ K" and lt: "stop bd < 2 ^ 63"
      by (simp_all add: arena_inv_def)
    from alloc_search_spec[OF sr] inv Some first_leaf
    have lf: "block0 \<in> set (leaves 1 (a_size \<circ> m) (start bd) K)" by blast
    from False b sr Some obtain y where sp: "alloc_split sz block0 m = Some y"
      and res: "m' = (snd y)(fst y := (snd y (fst y))\<lparr>a_free := False\<rparr>)"
      by (cases "alloc_split sz block0 m") (auto simp: buddy_alloc_def)
    have aW: "start bd + 2 ^ K < W" using en lt by simp
    from alloc_split_spec[OF sp, of "start bd"] a0 aW ok lf
    have "buddy_ok 1 (a_size \<circ> snd y) (start bd) K" by blast
    then have "buddy_ok 1 (a_size \<circ> m') (start bd) K" by (simp only: res free_sizes)
    with inv show ?thesis by (simp add: arena_inv_def)
  qed
qed

section \<open>The tiling after a call\<close>

lemma tiledI: "heap_inv h K \<Longrightarrow> tiled h K"
  by (simp add: tiled_def heap_inv_tiling)

lemma arena_tiledI: "arena_inv b m K \<Longrightarrow> arena_tiled b m K"
  by (simp add: arena_tiled_def arena_inv_tiling)

lemma grow_tiled:
  assumes "grow n h = Some (r, h')" "heap_inv h K"
  shows "\<exists>K'. tiled h' K'"
proof -
  from grow_spec[OF assms] obtain K' where "heap_ext h K h' K'"
    unfolding grow_post_def by auto
  then have "heap_inv h' K'" by (simp add: heap_ext_def)
  then show ?thesis by (blast intro: tiledI)
qed

lemma split_tiled:
  assumes inv: "heap_inv h K" and lf: "x \<in> set (leaves 16 (bsize \<circ> mem h) (h_start h) K)"
    and big: "16 < bsize (mem h x)"
  shows "tiled (h\<lparr>mem := split x (mem h)\<rparr>) K"
proof -
  from inv have ok: "buddy_ok 16 (bsize \<circ> mem h) (h_start h) K" by (simp add: heap_inv_def)
  from split_step[OF ok lf big]
  have "buddy_ok 16 (bsize \<circ> split x (mem h)) (h_start h) K" by blast
  then have "heap_inv (h\<lparr>mem := split x (mem h)\<rparr>) K"
    by (intro heap_inv_frame[OF inv]) simp_all
  then show ?thesis by (rule tiledI)
qed

lemma heap_room_reached:
  "do { h \<leftarrow> init Ctor (boot 1000000);
        (a, h1) \<leftarrow> balloc Ctor 2000 h;
        (p, h2) \<leftarrow> balloc Ctor 2000 h1;
        h3 \<leftarrow> bfree p h2;
        Some (a, p, h3) } = Some (65552, 67600, heap_room)"
  by (simp add: heap_eval heap_room_def)

lemma heap_room_inv: "heap_inv heap_room 8"
  by (simp add: heap_inv_def heap_room_def buddy_ok_numeral)

lemma heap_room_leaves: "leaves 16 (bsize \<circ> mem heap_room) 65536 8 = [65536, 67584]"
  by (simp add: heap_room_def leaves_numeral)

text \<open>
  The first call of the lazy version runs \<open>init\<close>: with a page size of \<open>16 * 2 ^ k\<close>
  bytes, the region it sets up is one free block of order \<open>k\<close>, with the cursor on it.
\<close>

lemma init_lazy_spec:
  assumes i: "init Lazy h0 = Some h1" and ni: "\<not> Buddy_Is_Init h0"
    and ps: "pagesize h0 = 16 * 2 ^ k" and b0: "0 < brk h0" and bm: "brk_max h0 < 2 ^ 63"
  shows "heap_inv h1 k \<and> cursor_ok h1 k \<and> Buddy_Is_Init h1"
proof -
  have "brk h0 mod (16 * 2 ^ k) < 16 * 2 ^ k" by simp
  then have ml: "brk h0 mod (16 * 2 ^ k) < brk h0 + 16 * 2 ^ k" by (rule trans_less_add2)
  from i ni ps b0 ml have
    f: "0 < h_start h1" "h_end h1 = h_start h1 + 16 * 2 ^ k" "brk h1 = h_end h1"
       "brk h1 \<le> brk_max h1" "brk_max h1 = brk_max h0" "h_next h1 = h_start h1"
       "Buddy_Is_Init h1" "bsize (mem h1 (h_start h1)) = 16 * 2 ^ k"
    by (auto simp: init_def Let_def sbrk_def pthread_mutex_lock_def pthread_mutex_unlock_def
          split: if_splits)
  have s: "(bsize \<circ> mem h1) (h_start h1) = 16 * 2 ^ k" using f(8) by simp
  have ok: "buddy_ok 16 (bsize \<circ> mem h1) (h_start h1) k"
    by (rule leaf_ok[of "bsize \<circ> mem h1" "h_start h1" 16 k, OF s])
  have lv: "leaves 16 (bsize \<circ> mem h1) (h_start h1) k = [h_start h1]"
    by (rule leaves_leaf[of "bsize \<circ> mem h1" "h_start h1" 16 k, OF s])
  have "heap_inv h1 k" unfolding heap_inv_def using f(1,2,3,4) bm ok by (simp add: f(5))
  moreover have "cursor_ok h1 k" by (simp add: cursor_ok_def f(6) lv)
  ultimately show ?thesis using f(7) by simp
qed

lemma balloc_first:
  assumes b: "balloc Lazy n h = Some (r, h')" and ni: "\<not> Buddy_Is_Init h"
    and ps: "pagesize h = 16 * 2 ^ k" and b0: "0 < brk h" and bm: "brk_max h < 2 ^ 63"
  shows "\<exists>K'. heap_inv h' K' \<and> cursor_ok h' K'"
proof -
  from b ni obtain h1 where i: "init Lazy h = Some h1"
    by (cases "init Lazy h") (simp_all add: balloc_def)
  from init_lazy_spec[OF i ni ps b0 bm] have
    s: "heap_inv h1 k" "cursor_ok h1 k" "Buddy_Is_Init h1" by simp_all
  from b ni i s(3) have "balloc Lazy n h1 = Some (r, h')" by (simp add: balloc_def)
  from balloc_spec[OF this s(1,2)] s(3) show ?thesis by blast
qed

lemma unlock_lock: "pthread_mutex_unlock (pthread_mutex_lock h) = h"
  by (simp add: pthread_mutex_unlock_def pthread_mutex_lock_def)

section \<open>Freeing what was just allocated\<close>

lemma split_mem:
  assumes "bsize (m B) = 16 * 2 ^ Suc j"
  shows "split B m = (m(B := (m B)\<lparr>bsize := 16 * 2 ^ j\<rparr>))
                       (B + 16 * 2 ^ j := \<lparr>bsize = 16 * 2 ^ j, used = False\<rparr>)"
  using assms by (simp add: split_def Let_def NEXT_def)

lemma balloc_split_shape:
  assumes "balloc_split sz B m = Some m'"
  shows "\<forall>j. bsize (m B) = 16 * 2 ^ j \<longrightarrow>
           (\<exists>i\<le>j. bsize (m' B) = 16 * 2 ^ i \<and> used (m' B) = used (m B) \<and>
              (\<forall>l. i \<le> l \<and> l < j \<longrightarrow> m' (B + 16 * 2 ^ l) = \<lparr>bsize = 16 * 2 ^ l, used = False\<rparr>) \<and>
              (\<forall>x. x < B \<or> B + 16 * 2 ^ j \<le> x \<longrightarrow> m' x = m x))"
proof (rule balloc_split.raw_induct[where P = "\<lambda>sz B m m'.
         \<forall>j. bsize (m B) = 16 * 2 ^ j \<longrightarrow>
           (\<exists>i\<le>j. bsize (m' B) = 16 * 2 ^ i \<and> used (m' B) = used (m B) \<and>
              (\<forall>l. i \<le> l \<and> l < j \<longrightarrow> m' (B + 16 * 2 ^ l) = \<lparr>bsize = 16 * 2 ^ l, used = False\<rparr>) \<and>
              (\<forall>x. x < B \<or> B + 16 * 2 ^ j \<le> x \<longrightarrow> m' x = m x))", OF _ assms])
  fix g :: "nat \<Rightarrow> nat \<Rightarrow> (nat \<Rightarrow> block) \<Rightarrow> (nat \<Rightarrow> block) option" and sz B m m'
  assume IH: "\<And>sz B m m'. g sz B m = Some m' \<Longrightarrow>
         \<forall>j. bsize (m B) = 16 * 2 ^ j \<longrightarrow>
           (\<exists>i\<le>j. bsize (m' B) = 16 * 2 ^ i \<and> used (m' B) = used (m B) \<and>
              (\<forall>l. i \<le> l \<and> l < j \<longrightarrow> m' (B + 16 * 2 ^ l) = \<lparr>bsize = 16 * 2 ^ l, used = False\<rparr>) \<and>
              (\<forall>x. x < B \<or> B + 16 * 2 ^ j \<le> x \<longrightarrow> m' x = m x))"
    and eq: "(if HALFMEMSIZE m B \<ge> sz \<and> bsize (m B) > MINBLOCKSIZE
      then g sz B (split B m)
      else Some m) = Some m'"
  show "\<forall>j. bsize (m B) = 16 * 2 ^ j \<longrightarrow>
           (\<exists>i\<le>j. bsize (m' B) = 16 * 2 ^ i \<and> used (m' B) = used (m B) \<and>
              (\<forall>l. i \<le> l \<and> l < j \<longrightarrow> m' (B + 16 * 2 ^ l) = \<lparr>bsize = 16 * 2 ^ l, used = False\<rparr>) \<and>
              (\<forall>x. x < B \<or> B + 16 * 2 ^ j \<le> x \<longrightarrow> m' x = m x))"
  proof (intro allI impI)
    fix j assume sj: "bsize (m B) = 16 * 2 ^ j"
    show "\<exists>i\<le>j. bsize (m' B) = 16 * 2 ^ i \<and> used (m' B) = used (m B) \<and>
              (\<forall>l. i \<le> l \<and> l < j \<longrightarrow> m' (B + 16 * 2 ^ l) = \<lparr>bsize = 16 * 2 ^ l, used = False\<rparr>) \<and>
              (\<forall>x. x < B \<or> B + 16 * 2 ^ j \<le> x \<longrightarrow> m' x = m x)"
    proof (cases "HALFMEMSIZE m B \<ge> sz \<and> bsize (m B) > 16")
      case False
      with eq have "m' = m" by simp
      with sj show ?thesis by (intro exI[of _ j]) auto
    next
      case True
      with eq have rec: "g sz B (split B m) = Some m'" by simp
      from True sj have "j \<noteq> 0" by (cases j) simp_all
      then obtain j0 where j0: "j = Suc j0" by (cases j) simp_all
      define m1 where "m1 = split B m"
      have m1: "m1 = (m(B := (m B)\<lparr>bsize := 16 * 2 ^ j0\<rparr>))
                       (B + 16 * 2 ^ j0 := \<lparr>bsize = 16 * 2 ^ j0, used = False\<rparr>)"
        unfolding m1_def by (rule split_mem) (simp add: sj j0)
      have p: "(0::nat) < 16 * 2 ^ j0" by simp
      have m1B: "bsize (m1 B) = 16 * 2 ^ j0" "used (m1 B) = used (m B)"
        using p by (simp_all add: m1)
      have m1R: "m1 (B + 16 * 2 ^ j0) = \<lparr>bsize = 16 * 2 ^ j0, used = False\<rparr>" by (simp add: m1)
      have m1F: "m1 x = m x" if "x < B \<or> B + 16 * 2 ^ j \<le> x" for x
        using that p by (auto simp: m1 j0)
      from IH[OF rec[folded m1_def]] m1B(1) obtain i where
        i: "i \<le> j0" "bsize (m' B) = 16 * 2 ^ i" "used (m' B) = used (m1 B)"
           "\<And>l. i \<le> l \<Longrightarrow> l < j0 \<Longrightarrow> m' (B + 16 * 2 ^ l) = \<lparr>bsize = 16 * 2 ^ l, used = False\<rparr>"
           "\<And>x. x < B \<or> B + 16 * 2 ^ j0 \<le> x \<Longrightarrow> m' x = m1 x" by blast
      have a: "m' (B + 16 * 2 ^ l) = \<lparr>bsize = 16 * 2 ^ l, used = False\<rparr>"
        if "i \<le> l" "l < j" for l
      proof (cases "l = j0")
        case True
        have "m' (B + 16 * 2 ^ j0) = m1 (B + 16 * 2 ^ j0)" by (rule i(5)) simp
        with m1R True show ?thesis by simp
      next
        case False
        with that j0 have "l < j0" by simp
        from i(4)[OF that(1) this] show ?thesis .
      qed
      have b: "m' x = m x" if "x < B \<or> B + 16 * 2 ^ j \<le> x" for x
      proof -
        from that have "x < B \<or> B + 16 * 2 ^ j0 \<le> x" by (auto simp: j0)
        from i(5)[OF this] m1F[OF that] show ?thesis by simp
      qed
      from i(1) have "i \<le> j" by (simp add: j0)
      with i(2,3) m1B(2) a b show ?thesis by (intro exI[of _ i]) simp
    qed
  qed
qed

lemma join_loop_level:
  assumes st: "h_start h \<le> B" and bnd: "B + 16 * 2 ^ n \<le> h_end h" and lt: "h_end h < 2 ^ 63"
  shows "join_loop h B (16 * 2 ^ n) =
     (if (B - h_start h) mod (16 * 2 ^ Suc n) = 0
      then (if B + 16 * 2 ^ n = h_end h \<or> bsize (mem h (B + 16 * 2 ^ n)) \<noteq> 16 * 2 ^ n \<or>
               used (mem h (B + 16 * 2 ^ n))
            then Some (B, 16 * 2 ^ n) else join_loop h B (16 * 2 ^ Suc n))
      else (if B - 16 * 2 ^ n = h_end h \<or> bsize (mem h (B - 16 * 2 ^ n)) \<noteq> 16 * 2 ^ n \<or>
               used (mem h (B - 16 * 2 ^ n))
            then Some (B, 16 * 2 ^ n) else join_loop h (B - 16 * 2 ^ n) (16 * 2 ^ Suc n)))"
proof -
  define s :: nat where "s = 16 * 2 ^ n"
  have pos: "s \<noteq> 0" by (simp add: s_def)
  have "s < 2 ^ 63" using bnd lt by (simp add: s_def)
  then have m2: "(s * 2) mod W = s * 2" by simp
  have "B < W" using bnd lt by simp
  from BYTEDIFF_sub[OF st this] have bd: "BYTEDIFF (h_start h) B = B - h_start h" .
  have e2: "s * 2 = 16 * 2 ^ Suc n" by (simp add: s_def)
  from join_loop_unfold[OF m2 pos bd] show ?thesis unfolding e2 unfolding s_def .
qed

lemma join_loop_climb:
  assumes st: "h_start h \<le> B" and al: "16 * 2 ^ j dvd (B - h_start h)"
    and bnd: "B + 16 * 2 ^ j \<le> h_end h" and lt: "h_end h < 2 ^ 63"
    and fr: "\<And>l. i \<le> l \<Longrightarrow> l < j \<Longrightarrow>
               mem h (B + 16 * 2 ^ l) = \<lparr>bsize = 16 * 2 ^ l, used = False\<rparr>"
    and ij: "i \<le> j"
  shows "join_loop h B (16 * 2 ^ i) = join_loop h B (16 * 2 ^ j)"
  using ij fr
proof (induction rule: inc_induct)
  case base
  show ?case ..
next
  case (step n)
  have le: "(16::nat) * 2 ^ n < 16 * 2 ^ j" using step.hyps(2) by simp
  with bnd have bn: "B + 16 * 2 ^ n \<le> h_end h" by linarith
  have ne: "B + 16 * 2 ^ n \<noteq> h_end h" using le bnd by linarith
  from step.hyps(2) have "Suc n \<le> j" by simp
  from pow2_dvd[OF this, of 16] al have "16 * 2 ^ Suc n dvd (B - h_start h)"
    by (rule dvd_trans)
  then have left: "(B - h_start h) mod (16 * 2 ^ Suc n) = 0"
    using mod_eq_0_iff_dvd[of "B - h_start h" "16 * 2 ^ Suc n"] by blast
  have hd: "mem h (B + 16 * 2 ^ n) = \<lparr>bsize = 16 * 2 ^ n, used = False\<rparr>"
    by (rule step.prems) (simp_all add: step.hyps)
  have "join_loop h B (16 * 2 ^ n) = join_loop h B (16 * 2 ^ Suc n)"
    unfolding join_loop_level[OF st bn lt, of] using left ne hd by simp
  also have "\<dots> = join_loop h B (16 * 2 ^ j)"
  proof (rule step.IH)
    fix l assume "Suc n \<le> l" "l < j"
    then show "mem h (B + 16 * 2 ^ l) = \<lparr>bsize = 16 * 2 ^ l, used = False\<rparr>"
      by (intro step.prems) simp_all
  qed
  finally show ?case .
qed

lemma balloc_body_found:
  assumes b: "balloc_body sz h0 = Some (p, h')" and inv0: "heap_inv h0 K"
    and cur0: "cursor_ok h0 K" and p0: "p \<noteq> 0" and en: "h_end h' = h_end h0"
  shows "\<exists>B m2. B \<in> set (leaves 16 (bsize \<circ> mem h0) (h_start h0) K) \<and> \<not> used (mem h0 B) \<and>
           balloc_split sz B (mem h0) = Some m2 \<and> p = B + 16 \<and>
           h' = h0\<lparr>mem := m2(B := (m2 B)\<lparr>used := True\<rparr>),
                   h_next := (if NEXT m2 B = h_end h0 then h_start h0 else NEXT m2 B)\<rparr>"
proof -
  define h where "h = pthread_mutex_lock h0"
  have inv: "heap_inv h K" using inv0 by (simp add: h_def heap_inv_lock)
  have hs: "h_start h = h_start h0" "mem h = mem h0" "h_next h = h_next h0" "h_end h = h_end h0"
    by (simp_all add: h_def pthread_mutex_lock_def)
  have cur: "h_next h \<in> set (leaves 16 (bsize \<circ> mem h) (h_start h) K)"
    using cur0 by (simp add: cursor_ok_def hs)
  from b obtain r where sr: "balloc_search sz h (h_next h) = Some r"
    by (cases "balloc_search sz h (h_next h)") (simp_all add: balloc_body_def Let_def h_def)
  from balloc_search_spec[OF sr] inv cur have
    post: "case r of Inl h1 \<Rightarrow> grow_post h K 0 h1 | Inr (b, h1) \<Rightarrow> b \<noteq> 0 \<and> grow_post h K b h1"
    by blast
  show ?thesis
  proof (cases r)
    case (Inl h1)
    with b sr have "p = 0" by (simp add: balloc_body_def Let_def h_def)
    with p0 show ?thesis by simp
  next
    case (Inr bh)
    obtain B h1 where bh: "bh = (B, h1)" by (cases bh)
    from post Inr bh have b0: "B \<noteq> 0" and gp: "grow_post h K B h1" by simp_all
    from gp b0 obtain K' where ext: "heap_ext h K h1 K'"
      and lf: "B \<in> set (leaves 16 (bsize \<circ> mem h1) (h_start h) K')"
      and nu: "\<not> used (mem h1 B)"
      unfolding grow_post_def by auto
    from b sr Inr bh obtain m2 where sp: "balloc_split sz B (mem h1) = Some m2"
      by (cases "balloc_split sz B (mem h1)") (simp_all add: balloc_body_def Let_def h_def)
    from b sr Inr bh sp have res: "p = B + 16"
      "h' = pthread_mutex_unlock (h1\<lparr>mem := m2(B := (m2 B)\<lparr>used := True\<rparr>),
               h_next := (if NEXT m2 B = h_end h1 then h_start h1 else NEXT m2 B)\<rparr>)"
      by (simp_all add: balloc_body_def Let_def h_def)
    have "h_end h' = h_end h1" by (simp add: res pthread_mutex_unlock_def)
    with en hs have "h_end h1 = h_end h" by simp
    with ext have h1: "h1 = h" by (simp add: heap_ext_def)
    from ext have "heap_inv h1 K'" by (simp add: heap_ext_def)
    from heap_inv_order[OF inv this[unfolded h1]] have KK: "K' = K" by simp
    have e: "h' = h0\<lparr>mem := m2(B := (m2 B)\<lparr>used := True\<rparr>),
                   h_next := (if NEXT m2 B = h_end h0 then h_start h0 else NEXT m2 B)\<rparr>"
      unfolding res h1 by (simp add: h_def pthread_mutex_unlock_def pthread_mutex_lock_def)
    from lf nu sp res(1) e show ?thesis unfolding h1 KK hs by blast
  qed
qed

lemma block_eq: "bsize b = s \<Longrightarrow> used b = f \<Longrightarrow> b = \<lparr>bsize = s, used = f\<rparr>"
  by (cases b) simp

lemma bfree_balloc_body:
  assumes inv: "heap_inv h K" and cur: "cursor_ok h K" and co: "coalesced h K"
    and b: "balloc_body n h = Some (p, h')" and p0: "p \<noteq> 0" and en: "h_end h' = h_end h"
  shows "\<exists>h''. bfree p h' = Some h'' \<and> tiling h'' = tiling h \<and> h_end h'' = h_end h \<and>
           h_next h'' = BLOCK p"
proof -
  have u: "0 < (16::nat)" by simp
  from inv have ok: "buddy_ok 16 (bsize \<circ> mem h) (h_start h) K"
    and he: "h_end h = h_start h + 16 * 2 ^ K" by (simp_all add: heap_inv_def)
  note lt = heap_inv_lt[OF inv]
  from balloc_body_found[OF b inv cur p0 en] obtain B m2 where
    lf: "B \<in> set (leaves 16 (bsize \<circ> mem h) (h_start h) K)" and nu: "\<not> used (mem h B)"
    and sp: "balloc_split n B (mem h) = Some m2" and p: "p = B + 16"
    and h': "h' = h\<lparr>mem := m2(B := (m2 B)\<lparr>used := True\<rparr>),
                   h_next := (if NEXT m2 B = h_end h then h_start h else NEXT m2 B)\<rparr>"
    by blast
  from leaf_props[OF u ok lf] obtain j where
    j: "bsize (mem h B) = 16 * 2 ^ j" "16 * 2 ^ j dvd (B - h_start h)"
       "B + 16 * 2 ^ j \<le> h_end h" by (auto simp: he)
  from leaves_bounds[OF u lf] have sB: "h_start h \<le> B" by simp
  from balloc_split_shape[OF sp] j(1) obtain i where
    i: "i \<le> j" "bsize (m2 B) = 16 * 2 ^ i"
       "\<And>l. i \<le> l \<Longrightarrow> l < j \<Longrightarrow> m2 (B + 16 * 2 ^ l) = \<lparr>bsize = 16 * 2 ^ l, used = False\<rparr>"
       "\<And>x. x < B \<or> B + 16 * 2 ^ j \<le> x \<Longrightarrow> m2 x = mem h x" by blast
  define m3 where "m3 = m2(B := (m2 B)\<lparr>used := True\<rparr>)"
  define hL where "hL = pthread_mutex_lock h'"
  have L: "h_start hL = h_start h" "h_end hL = h_end h" "mem hL = m3"
    by (simp_all add: hL_def h' pthread_mutex_lock_def m3_def)
  have m3B: "bsize (m3 B) = 16 * 2 ^ i" by (simp add: m3_def i(2))
  have m3o: "m3 x = m2 x" if "x \<noteq> B" for x using that by (simp add: m3_def)
  have fr: "mem hL (B + 16 * 2 ^ l) = \<lparr>bsize = 16 * 2 ^ l, used = False\<rparr>"
    if "i \<le> l" "l < j" for l
  proof -
    have "B + 16 * 2 ^ l \<noteq> B" by simp
    from m3o[OF this] i(3)[OF that] show ?thesis by (simp add: L)
  qed
  have sBL: "h_start hL \<le> B" and alL: "16 * 2 ^ j dvd (B - h_start hL)"
    and bndL: "B + 16 * 2 ^ j \<le> h_end hL" and ltL: "h_end hL < 2 ^ 63"
    using sB j(2,3) lt by (simp_all add: L)
  have climb: "join_loop hL B (16 * 2 ^ i) = join_loop hL B (16 * 2 ^ j)"
    by (rule join_loop_climb[OF sBL alL bndL ltL fr i(1)])
  have pos: "(0::nat) < 16 * 2 ^ j" by simp
  from co lf nu have
    "let s = bsize (mem h B);
         y = (if (B - h_start h) mod (s * 2) = 0 then B + s else B - s)
     in y = h_end h \<or> bsize (mem h y) \<noteq> s \<or> used (mem h y)"
    unfolding coalesced_def by blast
  then have stop0:
    "(if (B - h_start h) mod (16 * 2 ^ Suc j) = 0
      then B + 16 * 2 ^ j = h_end h \<or> bsize (mem h (B + 16 * 2 ^ j)) \<noteq> 16 * 2 ^ j \<or>
           used (mem h (B + 16 * 2 ^ j))
      else B - 16 * 2 ^ j = h_end h \<or> bsize (mem h (B - 16 * 2 ^ j)) \<noteq> 16 * 2 ^ j \<or>
           used (mem h (B - 16 * 2 ^ j)))"
    by (simp add: Let_def j(1) mult.commute split: if_splits)
  have r1: "mem hL (B + 16 * 2 ^ j) = mem h (B + 16 * 2 ^ j)"
  proof -
    have "B + 16 * 2 ^ j \<noteq> B" by simp
    from m3o[OF this] i(4)[of "B + 16 * 2 ^ j"] show ?thesis by (simp add: L)
  qed
  have r2: "mem hL (B - 16 * 2 ^ j) = mem h (B - 16 * 2 ^ j)" if "h_start h < B"
  proof -
    from that pos have lt': "B - 16 * 2 ^ j < B" by linarith
    then have "B - 16 * 2 ^ j \<noteq> B" by simp
    from m3o[OF this] i(4)[of "B - 16 * 2 ^ j"] lt' show ?thesis by (simp add: L)
  qed
  have top: "join_loop hL B (16 * 2 ^ j) = Some (B, 16 * 2 ^ j)"
  proof (cases "(B - h_start h) mod (16 * 2 ^ Suc j) = 0")
    case True
    with stop0 show ?thesis
      unfolding join_loop_level[OF sBL bndL ltL] L(1,2) r1 by simp
  next
    case False
    then have "B - h_start h \<noteq> 0" by (metis mod_0)
    with sB have "h_start h < B" by simp
    note r2' = r2[OF this]
    from False stop0 show ?thesis
      unfolding join_loop_level[OF sBL bndL ltL] L(1,2) r2' by simp
  qed
  define m4 where "m4 = m3(B := \<lparr>bsize = 16 * 2 ^ j, used = False\<rparr>)"
  define h'' where "h'' = h'\<lparr>mem := m4, h_next := B\<rparr>"
  have Bp: "BLOCK p = B" by (simp add: BLOCK_def p)
  have jn: "join_loop (pthread_mutex_lock h') B (bsize (mem (pthread_mutex_lock h') B)) =
            Some (B, 16 * 2 ^ j)"
    using climb top m3B by (simp add: hL_def[symmetric] L)
  have mh': "mem h' = m3" by (simp add: h' m3_def)
  have bf: "bfree p h' = Some h''"
    using p0 jn
    by (simp add: bfree_def Let_def Bp join_def h''_def m4_def mh'
          pthread_mutex_unlock_def pthread_mutex_lock_def)
  have same: "m4 x = mem h x" if x: "x \<in> set (leaves 16 (bsize \<circ> mem h) (h_start h) K)" for x
  proof (cases "x = B")
    case True
    have "mem h B = \<lparr>bsize = 16 * 2 ^ j, used = False\<rparr>" by (rule block_eq[OF j(1)]) (simp add: nu)
    with True show ?thesis by (simp add: m4_def)
  next
    case False
    have out: "x < B \<or> B + 16 * 2 ^ j \<le> x"
    proof (cases "x < B")
      case True
      then show ?thesis by simp
    next
      case nl: False
      with False have "B < x" by simp
      from leaves_disjoint[OF u ok lf x this] j(1) show ?thesis by simp
    qed
    from i(4)[OF out] m3o[OF False] False show ?thesis by (simp add: m4_def)
  qed
  have "(bsize \<circ> m4) x = (bsize \<circ> mem h) x"
    if "x \<in> set (leaves 16 (bsize \<circ> mem h) (h_start h) K)" for x
    using same[OF that] by simp
  from leaves_cong_leaf[OF u ok this] have
    ok4: "buddy_ok 16 (bsize \<circ> m4) (h_start h) K"
    and lv4: "leaves 16 (bsize \<circ> m4) (h_start h) K = leaves 16 (bsize \<circ> mem h) (h_start h) K"
    by blast+
  have f4: "h_start h'' = h_start h" "h_end h'' = h_end h" "brk h'' = brk h"
    "brk_max h'' = brk_max h" "mem h'' = m4" "h_next h'' = B"
    by (simp_all add: h''_def h')
  have inv4: "heap_inv h'' K" by (rule heap_inv_frame[OF inv]) (simp_all add: f4 ok4)
  have "tiling h'' = Some (map (\<lambda>a. (a, m4 a)) (leaves 16 (bsize \<circ> mem h) (h_start h) K))"
    using heap_inv_tiling[OF inv4] by (simp add: f4 lv4)
  also have "\<dots> = Some (map (\<lambda>a. (a, mem h a)) (leaves 16 (bsize \<circ> mem h) (h_start h) K))"
    using same by simp
  also have "\<dots> = tiling h" using heap_inv_tiling[OF inv] by simp
  finally have "tiling h'' = tiling h" .
  with bf f4(2,6) Bp show ?thesis by (intro exI[of _ h'']) simp
qed

section \<open>Runs of the code on concrete states\<close>

text \<open>
  C1 (arena half). An arena of 1024 bytes, two allocations of 16 bytes, then \<open>buddy_free\<close> of
  the first one. The buddy of the freed block is in use, so \<open>try_merge\<close> returns \<open>NULL\<close> at
  once, and nothing marks the freed block free: its header still has \<open>free = 0\<close> after
  \<open>buddy_free\<close>. The heap variant's \<open>join\<close> ends with \<open>block->used = 0\<close>.
\<close>

theorem buddy_free_leaves_block_used:
  "(case buddy_init 4096 2047 blank of
      (b, m) \<Rightarrow>
        do { (p, m1) \<leftarrow> buddy_alloc b 16 m;
             (q, m2) \<leftarrow> buddy_alloc b 16 m1;
             m3 \<leftarrow> buddy_free b p m2;
             Some (stop b, p, q, m3 (MEM_BLOCK_PTR p)) })
   = Some (5120, 4112, 4144, \<lparr>a_size = 32, a_free = False\<rparr>)"
  by (simp add: arena_eval)

text \<open>
  C2, as stated, fails on the heap: after one allocation of 16 bytes, \<open>balloc(8000)\<close> grows
  the region from 4096 to 16384 bytes, and \<open>bfree\<close> of the result leaves the region grown
  (\<open>end\<close> went from 69632 to 81920) and the cursor on the freed block (73728), not where it
  was (65568).
\<close>

theorem bfree_balloc_not_restored:
  "do { h \<leftarrow> init Ctor (boot 1000000);
        (a, h1) \<leftarrow> balloc Ctor 16 h;
        (p, h2) \<leftarrow> balloc Ctor 8000 h1;
        h3 \<leftarrow> bfree p h2;
        Some ((h_end h1, h_next h1), (h_end h3, h_next h3)) }
   = Some ((69632, 65568), (81920, 73728))"
  by (simp add: heap_eval)

text \<open>
  C2, amended. In the heap, from a state that satisfies the invariant, with the cursor on a
  block of the region and no free block left next to a free buddy of its size: when
  \<open>balloc\<close> returns a block without growing the region, \<open>bfree\<close> of that block returns, and
  the walk from \<open>start\<close> to \<open>end\<close> meets the same blocks with the same headers (sizes and
  \<open>used\<close> flags) as before the allocation. The region is the same. The cursor is left on the
  freed block, wherever it was before.
\<close>

theorem bfree_balloc_restores:
  assumes inv: "heap_inv h K" and cur: "cursor_ok h K" and co: "coalesced h K"
    and ini: "v = Lazy \<longrightarrow> Buddy_Is_Init h"
    and b: "balloc v n h = Some (p, h')" and p0: "p \<noteq> BNULL" and en: "h_end h' = h_end h"
  shows "\<exists>h''. bfree p h' = Some h'' \<and> tiling h'' = tiling h \<and> h_end h'' = h_end h \<and>
           h_next h'' = BLOCK p"
proof -
  have "balloc_body n h = Some (p, h')"
  proof (cases v)
    case Ctor
    with b show ?thesis by (simp add: balloc_def)
  next
    case Lazy
    with b ini p0 show ?thesis by (cases "n = 0") (simp_all add: balloc_def)
  qed
  from bfree_balloc_body[OF inv cur co this p0 en] show ?thesis .
qed

theorem bfree_balloc_restores_witness:
  "\<exists>h' h''. balloc Ctor 16 heap_one = Some (67600, h') \<and> bfree 67600 h' = Some h'' \<and>
      tiling h'' = tiling heap_one \<and> h_end h'' = h_end heap_one \<and> h_next h'' = BLOCK 67600"
proof -
  have hs: "h_start heap_one = 65536" by (simp add: heap_one_def)
  have 1: "heap_inv heap_one 8" by (rule heap_one_inv)
  have 2: "cursor_ok heap_one 8"
    using heap_one_leaves by (simp add: cursor_ok_def heap_one_def)
  have 3: "coalesced heap_one 8"
    unfolding coalesced_def hs heap_one_leaves by (simp add: heap_one_def)
  have 4: "Ctor = Lazy \<longrightarrow> Buddy_Is_Init heap_one" by simp
  have "\<exists>h'. balloc Ctor 16 heap_one = Some (67600, h') \<and> h_end h' = h_end heap_one"
    by (simp add: heap_eval heap_one_def)
  then obtain h' where 5: "balloc Ctor 16 heap_one = Some (67600, h')"
    and 7: "h_end h' = h_end heap_one" by blast
  have 6: "67600 \<noteq> BNULL" by simp
  from bfree_balloc_restores[OF 1 2 3 4 5 6 7] 5 show ?thesis by blast
qed

text \<open>
  C4. \<open>brealloc(p, SIZE_MAX)\<close> on a live block of 128 bytes: \<open>BLOCKSIZE(size)\<close> wraps to 15,
  the loop that grows the block in place returns at once, and \<open>brealloc\<close> returns \<open>p\<close> itself,
  whose payload capacity is still 112 bytes.
\<close>

theorem brealloc_huge_request_undersized:
  "do { h \<leftarrow> init Ctor (boot 69632);
        (p, h1) \<leftarrow> balloc Ctor 100 h;
        (q, h2) \<leftarrow> brealloc Ctor p (W - 1) h1;
        Some (p, q, MEMSIZE (mem h2) (BLOCK q)) }
   = Some (65552, 65552, 112)"
  by (simp add: heap_eval)

text \<open>
  C5. Two blocks of 2048 bytes, the left one freed, then \<open>brealloc\<close> of the right one to 5000
  bytes with a system that grants no more memory. The inner \<open>bfree\<close> merges the block into
  its left buddy; the inner \<open>balloc\<close> fails; the restore writes the header of the old block,
  which now lies inside the free block of 4096 bytes at \<open>start\<close>. \<open>brealloc\<close> returns
  \<open>BNULL\<close>, the only block of the region is free, and the next \<open>balloc(3000)\<close> hands out
  the payload \<open>[65552, 69632)\<close>, which contains the payload at 67600 that the caller still owns.
\<close>

theorem brealloc_failure_loses_block:
  "do { h \<leftarrow> init Ctor (boot 69632);
        (a, h1) \<leftarrow> balloc Ctor 2000 h;
        (p, h2) \<leftarrow> balloc Ctor 2000 h1;
        h3 \<leftarrow> bfree a h2;
        (q, h4) \<leftarrow> brealloc Ctor p 5000 h3;
        (r, h5) \<leftarrow> balloc Ctor 3000 h4;
        Some (p, q, h_start h4, mem h4 (h_start h4), h_end h4, r, MEMSIZE (mem h5) (BLOCK r)) }
   = Some (67600, 0, 65536, \<lparr>bsize = 4096, used = False\<rparr>, 69632, 65552, 4080)"
  by (simp add: heap_eval)

text \<open>
  C6. \<open>p2align_down\<close> halves an exact power of two: 1024 gives 512, and \<open>buddy_init\<close> with
  1024 bytes installs a block of 512 bytes with \<open>stop = start + 512\<close>.
\<close>

theorem p2align_down_halves_power_of_two:
  "p2align_down 1024 = 512 \<and>
   (case buddy_init 4096 1024 blank of
      (b, m) \<Rightarrow> (start b, stop b, m (start b)))
   = (4096, 4608, \<lparr>a_size = 512, a_free = True\<rparr>)"
  by (simp add: arena_eval)

text \<open>
  C7. The \<open>Ctor\<close> version of \<open>balloc\<close> has no test for a request of 0 bytes: on the fresh
  region \<open>balloc(0)\<close> splits down to a block of 16 bytes, marks it used and returns its
  payload address 65552, not \<open>BNULL\<close>.
\<close>

theorem balloc_zero_not_null:
  "do { h \<leftarrow> init Ctor (boot 69632);
        (p, h1) \<leftarrow> balloc Ctor 0 h;
        Some (p, mem h1 (BLOCK p)) }
   = Some (65552, \<lparr>bsize = 16, used = True\<rparr>)"
  by (simp add: heap_eval)

text \<open>
  C8. \<open>balloc(4000)\<close> takes the whole first region; \<open>brealloc\<close> of it to 4000 bytes takes the
  shrink-in-place path, which sets \<open>next = NEXT(block)\<close> without the wrap to \<open>start\<close>:
  the cursor is left equal to \<open>end\<close>.
\<close>

theorem brealloc_cursor_at_end:
  "do { h \<leftarrow> init Ctor (boot 69632);
        (p, h1) \<leftarrow> balloc Ctor 4000 h;
        (q, h2) \<leftarrow> brealloc Ctor p 4000 h1;
        Some (q, h_next h2, h_end h2) }
   = Some (65552, 69632, 69632)"
  by (simp add: heap_eval)

text \<open>
  C9. In the \<open>Ctor\<close> version \<open>brealloc(BNULL, 8)\<close> returns with the lock still held once:
  the depth of the recursive mutex is 0 on entry and 1 on return.
\<close>

theorem brealloc_null_keeps_lock:
  "do { h \<leftarrow> init Ctor (boot 69632);
        (p, h1) \<leftarrow> brealloc Ctor BNULL 8 h;
        Some (lock h, p, lock h1) }
   = Some (0, 65552, 1)"
  by (simp add: heap_eval)

section \<open>Termination of free\<close>

text \<open>
  C10. In a heap that satisfies the invariant, \<open>bfree\<close> of a pointer to a block of the
  region (or of the null pointer) returns, and in an arena that satisfies the invariant,
  \<open>buddy_free\<close> of a pointer to a block of the arena returns: the coalescing loops end.
  Each round doubles the size of the candidate block, which stays inside the region, so there
  are at most \<open>K\<close> rounds in a region of order \<open>K\<close>. The state they return in satisfies
  the invariant again.
\<close>

theorem free_returns:
  assumes "heap_inv h K"
    and "p = BNULL \<or> BLOCK p \<in> set (leaves 16 (bsize \<circ> mem h) (h_start h) K)"
    and "arena_inv b m Ka"
    and "MEM_BLOCK_PTR q \<in> set (leaves 1 (a_size \<circ> m) (start b) Ka)"
  shows "(\<exists>h'. bfree p h = Some h' \<and> heap_inv h' K) \<and>
         (\<exists>m'. buddy_free b q m = Some m' \<and> arena_inv b m' Ka)"
proof
  show "\<exists>h'. bfree p h = Some h' \<and> heap_inv h' K"
  proof (cases "p = BNULL")
    case True
    with assms(1) show ?thesis by (simp add: bfree_def)
  next
    case False
    with assms(2) have lf: "BLOCK p \<in> set (leaves 16 (bsize \<circ> mem h) (h_start h) K)" by blast
    from bfree_total[OF assms(1) lf False] obtain b j where
      r: "bfree p h =
            Some (h\<lparr>mem := (mem h)(b := \<lparr>bsize = 16 * 2 ^ j, used = False\<rparr>), h_next := b\<rparr>)"
         "buddy_ok 16 ((bsize \<circ> mem h)(b := 16 * 2 ^ j)) (h_start h) K" by blast
    have "bsize \<circ> (mem h)(b := \<lparr>bsize = 16 * 2 ^ j, used = False\<rparr>) =
          (bsize \<circ> mem h)(b := 16 * 2 ^ j)"
      by (simp only: fun_upd_comp block.simps)
    with r(2) heap_inv_mem_upd[OF assms(1)] r(1) show ?thesis by simp
  qed
  show "\<exists>m'. buddy_free b q m = Some m' \<and> arena_inv b m' Ka"
    by (rule buddy_free_total[OF assms(3,4)])
qed

theorem free_returns_witness:
  "(\<exists>h'. bfree 67600 heap_two = Some h' \<and> heap_inv h' 8) \<and>
   (\<exists>m'. buddy_free (fst arena_one) 4112 (snd arena_one) = Some m' \<and>
          arena_inv (fst arena_one) m' 10)"
proof -
  have 1: "heap_inv heap_two 8" by (rule heap_two_inv)
  have 2: "67600 = BNULL \<or>
           BLOCK 67600 \<in> set (leaves 16 (bsize \<circ> mem heap_two) (h_start heap_two) 8)"
    using heap_two_leaves by (simp add: BLOCK_def heap_two_def)
  have 3: "arena_inv (fst arena_one) (snd arena_one) 10" by (rule arena_one_inv)
  have 4: "MEM_BLOCK_PTR 4112 \<in>
           set (leaves 1 (a_size \<circ> snd arena_one) (start (fst arena_one)) 10)"
    using arena_one_leaves by (simp add: MEM_BLOCK_PTR_def arena_one_def)
  from free_returns[OF 1 2 3 4] show ?thesis .
qed

section \<open>The tiling invariant\<close>

text \<open>
  C3. The state a call returns in is tiled: the walk from \<open>start\<close> by size steps ends exactly
  on \<open>end\<close>, and it meets the blocks of the region and nothing else. Each call is taken
  under its own hypotheses on the state it starts from:
  \<^item> \<open>balloc\<close> and \<open>bcalloc\<close>: the invariant, and the cursor on a block of the region (the
    search loop reads the header at the cursor);
  \<^item> \<open>bfree\<close>: the invariant, and a pointer that is null or points to a block;
  \<^item> \<open>brealloc\<close>: the invariant, and a pointer to a block, or the null pointer with the
    cursor on a block;
  \<^item> \<open>grow\<close>: the invariant alone; the region may have grown (a higher order \<open>K'\<close>);
  \<^item> \<open>split\<close>: the invariant, on a block of more than \<open>MINBLOCKSIZE\<close> bytes;
  \<^item> the first call of the lazy version, which runs \<open>init\<close>: a page size of \<open>16 * 2 ^ k\<close>
    bytes and a program break that is not 0;
  \<^item> \<open>buddy_alloc\<close>: the invariant of the arena; \<open>buddy_free\<close>: the invariant and a pointer
    to a block of the arena.

  The requested sizes are arbitrary. In the lazy version the other calls are taken after
  \<open>init\<close>.
\<close>

theorem tiling_preserved:
  "(heap_inv h K \<and> cursor_ok h K \<and> (v = Lazy \<longrightarrow> Buddy_Is_Init h) \<longrightarrow>
      (\<forall>r h'. balloc v n h = Some (r, h') \<longrightarrow> (\<exists>K'. tiled h' K')) \<and>
      (\<forall>r h'. bcalloc v c n h = Some (r, h') \<longrightarrow> (\<exists>K'. tiled h' K'))) \<and>
   (heap_inv h K \<and> (p = BNULL \<or> BLOCK p \<in> set (leaves 16 (bsize \<circ> mem h) (h_start h) K)) \<longrightarrow>
      (\<forall>h'. bfree p h = Some h' \<longrightarrow> tiled h' K)) \<and>
   (heap_inv h K \<and> (v = Lazy \<longrightarrow> Buddy_Is_Init h) \<and>
    (if p = BNULL then cursor_ok h K
     else BLOCK p \<in> set (leaves 16 (bsize \<circ> mem h) (h_start h) K)) \<longrightarrow>
      (\<forall>r h'. brealloc v p n h = Some (r, h') \<longrightarrow> (\<exists>K'. tiled h' K'))) \<and>
   (heap_inv h K \<longrightarrow> (\<forall>r h'. grow n h = Some (r, h') \<longrightarrow> (\<exists>K'. tiled h' K'))) \<and>
   (heap_inv h K \<and> x \<in> set (leaves 16 (bsize \<circ> mem h) (h_start h) K) \<and>
    MINBLOCKSIZE < bsize (mem h x) \<longrightarrow> tiled (h\<lparr>mem := split x (mem h)\<rparr>) K) \<and>
   (\<not> Buddy_Is_Init h \<and> pagesize h = 16 * 2 ^ k \<and> 0 < brk h \<and> brk_max h < 2 ^ 63 \<longrightarrow>
      (\<forall>r h'. balloc Lazy n h = Some (r, h') \<longrightarrow> (\<exists>K'. tiled h' K')) \<and>
      (\<forall>r h'. bcalloc Lazy c n h = Some (r, h') \<longrightarrow> (\<exists>K'. tiled h' K')) \<and>
      (\<forall>r h'. brealloc Lazy BNULL n h = Some (r, h') \<longrightarrow> (\<exists>K'. tiled h' K'))) \<and>
   (arena_inv b m Ka \<longrightarrow>
      (\<forall>r m'. buddy_alloc b n m = Some (r, m') \<longrightarrow> arena_tiled b m' Ka)) \<and>
   (arena_inv b m Ka \<and> MEM_BLOCK_PTR q \<in> set (leaves 1 (a_size \<circ> m) (start b) Ka) \<longrightarrow>
      (\<forall>m'. buddy_free b q m = Some m' \<longrightarrow> arena_tiled b m' Ka))"
proof (intro conjI impI allI; (elim conjE)?)
  fix r h'
  assume inv: "heap_inv h K" and cur: "cursor_ok h K" and ini: "v = Lazy \<longrightarrow> Buddy_Is_Init h"
    and c: "balloc v n h = Some (r, h')"
  from balloc_spec[OF c inv cur ini] show "\<exists>K'. tiled h' K'" by (blast intro: tiledI)
next
  fix r h'
  assume inv: "heap_inv h K" and cur: "cursor_ok h K" and ini: "v = Lazy \<longrightarrow> Buddy_Is_Init h"
    and c: "bcalloc v c n h = Some (r, h')"
  from bcalloc_spec[OF c inv cur ini] show "\<exists>K'. tiled h' K'" by (blast intro: tiledI)
next
  fix h'
  assume inv: "heap_inv h K"
    and ptr: "p = BNULL \<or> BLOCK p \<in> set (leaves 16 (bsize \<circ> mem h) (h_start h) K)"
    and f: "bfree p h = Some h'"
  show "tiled h' K"
  proof (cases "p = 0")
    case True
    with f inv show ?thesis by (simp add: bfree_def tiledI)
  next
    case False
    with ptr have lf: "BLOCK p \<in> set (leaves 16 (bsize \<circ> mem h) (h_start h) K)" by blast
    from bfree_total[OF inv lf False] f obtain bj j where
      r: "h' = h\<lparr>mem := (mem h)(bj := \<lparr>bsize = 16 * 2 ^ j, used = False\<rparr>), h_next := bj\<rparr>"
         "buddy_ok 16 ((bsize \<circ> mem h)(bj := 16 * 2 ^ j)) (h_start h) K" by auto
    have "heap_inv h' K" unfolding r(1)
      by (rule heap_inv_mem_upd[OF inv]) (simp only: upd_sizes r(2))
    then show ?thesis by (rule tiledI)
  qed
next
  fix r h'
  assume inv: "heap_inv h K" and ini: "v = Lazy \<longrightarrow> Buddy_Is_Init h"
    and ptr: "if p = BNULL then cursor_ok h K
              else BLOCK p \<in> set (leaves 16 (bsize \<circ> mem h) (h_start h) K)"
    and c: "brealloc v p n h = Some (r, h')"
  from brealloc_spec[OF c inv ini ptr] show "\<exists>K'. tiled h' K'" by (blast intro: tiledI)
next
  fix r h'
  assume inv: "heap_inv h K" and c: "grow n h = Some (r, h')"
  from grow_tiled[OF c inv] show "\<exists>K'. tiled h' K'" .
next
  assume inv: "heap_inv h K" and blk: "x \<in> set (leaves 16 (bsize \<circ> mem h) (h_start h) K)"
    and big: "MINBLOCKSIZE < bsize (mem h x)"
  from split_tiled[OF inv blk big] show "tiled (h\<lparr>mem := split x (mem h)\<rparr>) K" .
next
  fix r h'
  assume ni: "\<not> Buddy_Is_Init h" and ps: "pagesize h = 16 * 2 ^ k" and b0: "0 < brk h"
    and bm: "brk_max h < 2 ^ 63" and c: "balloc Lazy n h = Some (r, h')"
  from balloc_first[OF c ni ps b0 bm] show "\<exists>K'. tiled h' K'" by (blast intro: tiledI)
next
  fix r h'
  assume ni: "\<not> Buddy_Is_Init h" and ps: "pagesize h = 16 * 2 ^ k" and b0: "0 < brk h"
    and bm: "brk_max h < 2 ^ 63" and c: "bcalloc Lazy c n h = Some (r, h')"
  from c obtain q h1 where ba: "balloc Lazy ((n * c) mod W) h = Some (q, h1)"
    by (cases "balloc Lazy ((n * c) mod W) h") (auto simp: bcalloc_def Let_def)
  from balloc_first[OF ba ni ps b0 bm] obtain K' where k: "heap_inv h1 K'" by blast
  from c ba obtain bb where "h' = h1 \<or> h' = h1\<lparr>bytes := bb\<rparr>"
    by (auto simp: bcalloc_def Let_def split: if_splits)
  moreover have "heap_inv (h1\<lparr>bytes := bb\<rparr>) K' = heap_inv h1 K'"
    by (rule heap_inv_cong) simp_all
  ultimately have "heap_inv h' K'" using k by blast
  then show "\<exists>K'. tiled h' K'" by (blast intro: tiledI)
next
  fix r h'
  assume ni: "\<not> Buddy_Is_Init h" and ps: "pagesize h = 16 * 2 ^ k" and b0: "0 < brk h"
    and bm: "brk_max h < 2 ^ 63" and c: "brealloc Lazy BNULL n h = Some (r, h')"
  from c have "balloc Lazy n h = Some (r, h')"
    by (simp add: brealloc_def Let_def unlock_lock)
  from balloc_first[OF this ni ps b0 bm] show "\<exists>K'. tiled h' K'" by (blast intro: tiledI)
next
  fix r m'
  assume ainv: "arena_inv b m Ka" and c: "buddy_alloc b n m = Some (r, m')"
  from buddy_alloc_spec[OF c ainv] show "arena_tiled b m' Ka" by (rule arena_tiledI)
next
  fix m'
  assume ainv: "arena_inv b m Ka"
    and aptr: "MEM_BLOCK_PTR q \<in> set (leaves 1 (a_size \<circ> m) (start b) Ka)"
    and f: "buddy_free b q m = Some m'"
  from buddy_free_total[OF ainv aptr] f have "arena_inv b m' Ka" by auto
  then show "arena_tiled b m' Ka" by (rule arena_tiledI)
qed

theorem tiling_preserved_witness:
  "(\<exists>h' K'. balloc Ctor 8000 heap_room = Some (73744, h') \<and> h_end h' = 81920 \<and> tiled h' K') \<and>
   (\<exists>r h' K'. bcalloc Ctor 2 16 heap_room = Some (r, h') \<and> tiled h' K') \<and>
   (\<exists>h'. bfree 65552 heap_room = Some h' \<and> tiled h' 8) \<and>
   (\<exists>r h' K'. brealloc Ctor 65552 16 heap_room = Some (r, h') \<and> tiled h' K') \<and>
   (\<exists>h' K'. grow 8000 heap_room = Some (73728, h') \<and> h_end h' = 81920 \<and> tiled h' K') \<and>
   tiled (heap_room\<lparr>mem := split 67584 (mem heap_room)\<rparr>) 8 \<and>
   (\<exists>r h' K'. balloc Lazy 16 (boot 1000000) = Some (r, h') \<and> tiled h' K') \<and>
   (\<exists>r h' K'. bcalloc Lazy 2 16 (boot 1000000) = Some (r, h') \<and> tiled h' K') \<and>
   (\<exists>r h' K'. brealloc Lazy BNULL 16 (boot 1000000) = Some (r, h') \<and> tiled h' K') \<and>
   (\<exists>r m'. buddy_alloc (fst arena_one) 16 (snd arena_one) = Some (r, m') \<and>
            arena_tiled (fst arena_one) m' 10) \<and>
   (\<exists>m'. buddy_free (fst arena_one) 4112 (snd arena_one) = Some m' \<and>
          arena_tiled (fst arena_one) m' 10)"
proof -
  have inv: "heap_inv heap_room 8" by (rule heap_room_inv)
  have cur: "cursor_ok heap_room 8"
    using heap_room_leaves by (simp add: cursor_ok_def heap_room_def)
  have ini: "Ctor = Lazy \<longrightarrow> Buddy_Is_Init heap_room" by simp
  have ptr: "BLOCK 65552 \<in> set (leaves 16 (bsize \<circ> mem heap_room) (h_start heap_room) 8)"
    using heap_room_leaves by (simp add: BLOCK_def heap_room_def)
  have blk: "67584 \<in> set (leaves 16 (bsize \<circ> mem heap_room) (h_start heap_room) 8)"
    using heap_room_leaves by (simp add: heap_room_def)
  have big: "MINBLOCKSIZE < bsize (mem heap_room 67584)" by (simp add: heap_room_def)
  have fresh: "\<not> Buddy_Is_Init (boot 1000000) \<and> pagesize (boot 1000000) = 16 * 2 ^ 8 \<and>
               0 < brk (boot 1000000) \<and> brk_max (boot 1000000) < 2 ^ 63"
    by (simp add: boot_def)
  have ainv: "arena_inv (fst arena_one) (snd arena_one) 10" by (rule arena_one_inv)
  have aptr: "MEM_BLOCK_PTR 4112 \<in>
           set (leaves 1 (a_size \<circ> snd arena_one) (start (fst arena_one)) 10)"
    using arena_one_leaves by (simp add: MEM_BLOCK_PTR_def arena_one_def)
  note big_run = tiling_preserved[where h = heap_room and K = 8 and v = Ctor and n = 8000
      and p = 65552 and x = 67584]
  note small_run = tiling_preserved[where h = heap_room and K = 8 and v = Ctor and n = 16
      and c = 2 and p = 65552]
  note first_run = tiling_preserved[where h = "boot 1000000" and k = 8 and n = 16 and c = 2]
  note arena_run = tiling_preserved[where b = "fst arena_one" and m = "snd arena_one"
      and Ka = 10 and n = 16 and q = 4112]
  have e1: "\<exists>h'. balloc Ctor 8000 heap_room = Some (73744, h') \<and> h_end h' = 81920"
    by (simp add: heap_eval heap_room_def)
  have e2: "\<exists>y. bcalloc Ctor 2 16 heap_room = Some y"
    by (simp add: heap_eval heap_room_def bcalloc_def)
  have e3: "\<exists>y. bfree 65552 heap_room = Some y" by (simp add: heap_eval heap_room_def)
  have e4: "\<exists>y. brealloc Ctor 65552 16 heap_room = Some y"
    by (simp add: heap_eval heap_room_def)
  have e5: "\<exists>h'. grow 8000 heap_room = Some (73728, h') \<and> h_end h' = 81920"
    by (simp add: heap_eval heap_room_def)
  have e7: "\<exists>y. balloc Lazy 16 (boot 1000000) = Some y" by (simp add: heap_eval)
  have e8: "\<exists>y. bcalloc Lazy 2 16 (boot 1000000) = Some y"
    by (simp add: heap_eval bcalloc_def)
  have e9: "\<exists>y. brealloc Lazy BNULL 16 (boot 1000000) = Some y" by (simp add: heap_eval)
  have e10: "\<exists>y. buddy_alloc (fst arena_one) 16 (snd arena_one) = Some y"
    by (simp add: arena_eval arena_one_def)
  have e11: "\<exists>y. buddy_free (fst arena_one) 4112 (snd arena_one) = Some y"
    by (simp add: arena_eval arena_one_def)
  from e1 big_run inv cur ini have
    c1: "\<exists>h' K'. balloc Ctor 8000 heap_room = Some (73744, h') \<and> h_end h' = 81920 \<and> tiled h' K'"
    by metis
  from e2 small_run inv cur ini have
    c2: "\<exists>r h' K'. bcalloc Ctor 2 16 heap_room = Some (r, h') \<and> tiled h' K'"
    by (metis surj_pair)
  from e3 big_run inv ptr have c3: "\<exists>h'. bfree 65552 heap_room = Some h' \<and> tiled h' 8"
    by metis
  have ptr': "if 65552 = BNULL then cursor_ok heap_room 8
              else BLOCK 65552 \<in> set (leaves 16 (bsize \<circ> mem heap_room) (h_start heap_room) 8)"
    using ptr by simp
  from e4 small_run inv ini ptr' have
    c4: "\<exists>r h' K'. brealloc Ctor 65552 16 heap_room = Some (r, h') \<and> tiled h' K'"
    by (metis surj_pair)
  from e5 big_run inv have
    c5: "\<exists>h' K'. grow 8000 heap_room = Some (73728, h') \<and> h_end h' = 81920 \<and> tiled h' K'"
    by metis
  from big_run inv blk big have c6: "tiled (heap_room\<lparr>mem := split 67584 (mem heap_room)\<rparr>) 8"
    by blast
  from e7 first_run fresh have
    c7: "\<exists>r h' K'. balloc Lazy 16 (boot 1000000) = Some (r, h') \<and> tiled h' K'"
    by (metis surj_pair)
  from e8 first_run fresh have
    c8: "\<exists>r h' K'. bcalloc Lazy 2 16 (boot 1000000) = Some (r, h') \<and> tiled h' K'"
    by (metis surj_pair)
  from e9 first_run fresh have
    c9: "\<exists>r h' K'. brealloc Lazy BNULL 16 (boot 1000000) = Some (r, h') \<and> tiled h' K'"
    by (metis surj_pair)
  from e10 arena_run ainv have
    c10: "\<exists>r m'. buddy_alloc (fst arena_one) 16 (snd arena_one) = Some (r, m') \<and>
            arena_tiled (fst arena_one) m' 10" by (metis surj_pair)
  from e11 arena_run ainv aptr have
    c11: "\<exists>m'. buddy_free (fst arena_one) 4112 (snd arena_one) = Some m' \<and>
          arena_tiled (fst arena_one) m' 10" by metis
  from c1 c2 c3 c4 c5 c6 c7 c8 c9 c10 c11 show ?thesis by (intro conjI)
qed

end
